theory Spec2Isabelle
  imports Main "HOL-Library.Word"
begin

section \<open>The running-maximum metric \<^verbatim>\<open>MaxDuration\<close>\<close>

text \<open>
  \<^verbatim>\<open>type MaxDuration struct { d int64 }\<close>: a 64-bit signed integer, read and written
  with the atomic primitives of \<^verbatim>\<open>sync/atomic\<close>. The integer is a \<open>64 word\<close>; Go compares
  \<^verbatim>\<open>int64\<close> values as signed numbers, which is \<open><s\<close> on words.
\<close>

type_synonym int64 = "64 word"

record MaxDuration =
  d :: int64

text \<open>\<^verbatim>\<open>func (v *MaxDuration) Int() int64 { return atomic.LoadInt64(&v.d) }\<close>\<close>

definition MaxDuration_Int :: "MaxDuration \<Rightarrow> int64" where
  "MaxDuration_Int v = d v"

text \<open>
  \<^verbatim>\<open>atomic.CompareAndSwapInt64(&v.d, old, new)\<close>: stores \<open>new\<close> when the cell still holds
  \<open>old\<close> and reports whether it did.
\<close>

definition CompareAndSwapInt64 :: "MaxDuration \<Rightarrow> int64 \<Rightarrow> int64 \<Rightarrow> bool \<times> MaxDuration" where
  "CompareAndSwapInt64 v old new = (if d v = old then (True, v\<lparr>d := new\<rparr>) else (False, v))"

text \<open>
  The retry loop of \<^verbatim>\<open>Set\<close>, for one caller running alone: load, compare, compare-and-swap,
  and go round again when the swap reports failure.
\<close>

function Set_loop :: "int64 \<Rightarrow> MaxDuration \<Rightarrow> MaxDuration" where
  "Set_loop nxt v =
     (let cur = MaxDuration_Int v in
      if cur <s nxt then
        (if fst (CompareAndSwapInt64 v cur nxt) then snd (CompareAndSwapInt64 v cur nxt)
         else Set_loop nxt (snd (CompareAndSwapInt64 v cur nxt)))
      else v)"
  by pat_completeness auto
termination
proof (relation "{}")
  show "wf ({} :: ((int64 \<times> MaxDuration) \<times> (int64 \<times> MaxDuration)) set)"
    by simp
next
  fix nxt :: int64 and v :: MaxDuration and x :: int64
  assume "x = MaxDuration_Int v" and "\<not> fst (CompareAndSwapInt64 v x nxt)"
  then have False
    by (simp add: CompareAndSwapInt64_def MaxDuration_Int_def)
  then show "((nxt, snd (CompareAndSwapInt64 v x nxt)), (nxt, v)) \<in> {}"
    by simp
qed

declare Set_loop.simps [simp del]

text \<open>
  \<^verbatim>\<open>func (v *MaxDuration) Set(value float64)\<close>. The argument is a \<^verbatim>\<open>float64\<close>; the only thing
  the method does with it is the conversion \<^verbatim>\<open>int64(value)\<close>, which is taken here as the
  parameter \<open>toInt64\<close> over an arbitrary type of floating-point values.
\<close>

definition MaxDuration_Set :: "('f \<Rightarrow> int64) \<Rightarrow> 'f \<Rightarrow> MaxDuration \<Rightarrow> MaxDuration" where
  "MaxDuration_Set toInt64 value v = Set_loop (toInt64 value) v"

text \<open>The zero value \<^verbatim>\<open>&MaxDuration{}\<close> that \<^verbatim>\<open>start\<close> installs.\<close>

definition MaxDuration_zero :: MaxDuration where
  "MaxDuration_zero = \<lparr>d = 0\<rparr>"

text \<open>A sequence of calls \<^verbatim>\<open>Set(v1); ...; Set(vn)\<close> on one metric.\<close>

fun Set_all :: "('f \<Rightarrow> int64) \<Rightarrow> 'f list \<Rightarrow> MaxDuration \<Rightarrow> MaxDuration" where
  "Set_all toInt64 [] v = v"
| "Set_all toInt64 (x # xs) v = Set_all toInt64 xs (MaxDuration_Set toInt64 x v)"

subsection \<open>Concurrent callers of \<^verbatim>\<open>Set\<close>\<close>

text \<open>
  Several goroutines inside \<^verbatim>\<open>Set\<close> at once. The only shared accesses of the method are the
  atomic load and the atomic compare-and-swap, so an execution is an interleaving of these
  two kinds of steps. A caller is the value \<^verbatim>\<open>next\<close> it wants to store and the place it is
  at: before the load, holding the loaded \<^verbatim>\<open>cur\<close>, or returned.
\<close>

datatype pc = AtLoad | AtCompare int64 | Returned

type_synonym caller = "int64 \<times> pc"

text \<open>
  One step of a caller: \<^verbatim>\<open>cur := v.Int()\<close>; or the comparison \<^verbatim>\<open>next > cur\<close> with, when it
  holds, the compare-and-swap, after which the caller returns on success and goes round
  the loop on failure. A caller that has returned does nothing.
\<close>

definition Set_step :: "MaxDuration \<Rightarrow> caller \<Rightarrow> MaxDuration \<times> caller" where
  "Set_step v c =
     (case c of
        (nxt, AtLoad) \<Rightarrow> (v, (nxt, AtCompare (MaxDuration_Int v)))
      | (nxt, AtCompare cur) \<Rightarrow>
          if cur <s nxt then
            (if fst (CompareAndSwapInt64 v cur nxt)
             then (snd (CompareAndSwapInt64 v cur nxt), (nxt, Returned))
             else (snd (CompareAndSwapInt64 v cur nxt), (nxt, AtLoad)))
          else (v, (nxt, Returned))
      | (nxt, Returned) \<Rightarrow> (v, c))"

text \<open>
  An execution under a schedule: the list of the callers that take the steps, in order. A
  number that names no caller takes no step.
\<close>

fun run_schedule :: "nat list \<Rightarrow> MaxDuration \<times> caller list \<Rightarrow> MaxDuration \<times> caller list" where
  "run_schedule [] s = s"
| "run_schedule (k # ks) (v, cs) =
     (if k < length cs
      then run_schedule ks (fst (Set_step v (cs ! k)), cs[k := snd (Set_step v (cs ! k))])
      else run_schedule ks (v, cs))"

text \<open>The callers of \<^verbatim>\<open>Set(v1), ..., Set(vn)\<close> before any of them has taken a step.\<close>

definition callers :: "('f \<Rightarrow> int64) \<Rightarrow> 'f list \<Rightarrow> caller list" where
  "callers toInt64 xs = map (\<lambda>x. (toInt64 x, AtLoad)) xs"
text \<open>
  What holds at every moment of an execution that started with the value \<open>v0\<close>: the stored
  value is \<open>v0\<close> or one of the callers' values and is not below \<open>v0\<close>; a returned caller's
  value is not above the stored value; a loaded \<^verbatim>\<open>cur\<close> is not above the stored value.
\<close>

definition set_inv :: "int64 \<Rightarrow> MaxDuration \<times> caller list \<Rightarrow> bool" where
  "set_inv v0 s =
     (case s of (v, cs) \<Rightarrow>
        (d v = v0 \<or> d v \<in> fst ` set cs) \<and> sint v0 \<le> sint (d v)
        \<and> (\<forall>c \<in> set cs. (snd c = Returned \<longrightarrow> sint (fst c) \<le> sint (d v))
                         \<and> (\<forall>cur. snd c = AtCompare cur \<longrightarrow> sint cur \<le> sint (d v))))"


text \<open>
  A bound on the steps still to come. A caller before its load has the load to do; a
  caller holding a stale \<^verbatim>\<open>cur\<close> may fail its swap and load again; every caller that has not
  returned can still make one successful swap, which makes the \<^verbatim>\<open>cur\<close> of every other caller
  stale.
\<close>

definition pending :: "MaxDuration \<Rightarrow> caller \<Rightarrow> nat" where
  "pending v c = (case snd c of AtLoad \<Rightarrow> 1 | AtCompare cur \<Rightarrow> (if cur = d v then 0 else 2) | Returned \<Rightarrow> 0)"

definition alive :: "caller \<Rightarrow> nat" where
  "alive c = (if snd c = Returned then 0 else 1)"

definition potential :: "MaxDuration \<times> caller list \<Rightarrow> nat" where
  "potential s =
     (case s of (v, cs) \<Rightarrow> sum_list (map (\<lambda>c. pending v c + (2 * length cs + 1) * alive c) cs))"

text \<open>The steps of a schedule that are taken by callers that have not returned yet.\<close>

fun work :: "nat list \<Rightarrow> MaxDuration \<times> caller list \<Rightarrow> nat" where
  "work [] s = 0"
| "work (k # ks) (v, cs) =
     (if k < length cs
      then alive (cs ! k) + work ks (fst (Set_step v (cs ! k)), cs[k := snd (Set_step v (cs ! k))])
      else work ks (v, cs))"


section \<open>Nodes, conduits and the world they live in\<close>

text \<open>
  Modelled from the spec: the stream types. \<^verbatim>\<open>pipeline.EdgeType\<close> is declared outside the
  source file; the spec speaks of a small closed set of stream shapes and names Stream and
  Batch. \<open>NoEdge\<close> is the declared type of a side that carries no records.
\<close>

datatype EdgeType = NoEdge | StreamEdge | BatchEdge

text \<open>
  Go's \<^verbatim>\<open>error\<close> values. The source builds three of them with \<^verbatim>\<open>fmt.Errorf\<close>; they are kept
  apart by constructor, with the formatted arguments as fields:
  \<^item> \<open>MismatchedEdges p w\<close>: \<^verbatim>\<open>"cannot add child mismatched edges: %s -> %s"\<close> (the spec's
    LinkTypeMismatch);
  \<^item> \<open>UnknownEdgeType t\<close>: \<^verbatim>\<open>"unknown edge type %s"\<close>;
  \<^item> \<open>PanicTrace r trace\<close>: \<^verbatim>\<open>"%s: Trace:%s"\<close>, the recovered value and the stack excerpt;
  \<^item> \<open>RunError msg\<close>: any error a run routine returns.
  A nil error is \<open>None\<close>.
\<close>

datatype error =
    MismatchedEdges EdgeType EdgeType
  | UnknownEdgeType EdgeType
  | PanicTrace string string
  | RunError string

text \<open>
  Runtime panics of the node code itself: an index expression out of range (the index and
  the length), and a method call through a nil pointer.
\<close>

datatype panic = IndexOutOfRange nat nat | NilPointerDereference

type_synonym node_ref = nat
type_synonym edge_ref = nat
type_synonym byte = "8 word"
type_synonym GroupID = string
type_synonym Tags = "string \<rightharpoonup> string"

text \<open>
  Modelled from the spec: the conduit. \<^verbatim>\<open>Edge\<close> is not under the source file; the node code
  uses \<^verbatim>\<open>collectedCount()\<close>, \<^verbatim>\<open>emittedCount()\<close>, \<^verbatim>\<open>readGroupStats\<close>, \<^verbatim>\<open>Close()\<close> and \<^verbatim>\<open>Abort()\<close>.
  The spec gives a conduit running totals of collected and emitted counts, overall and per
  group, and per group the most recently observed tag set and dimension list. The per-group
  table is a Go map; \<open>groupStats\<close> lists its entries in the order an enumeration visits them.
\<close>

record edgeStat =
  collected :: int64
  emitted :: int64
  tags :: Tags
  dims :: "string list"

record Edge =
  edge_collected :: int64
  edge_emitted :: int64
  groupStats :: "(GroupID \<times> edgeStat) list"

definition Edge_collectedCount :: "Edge \<Rightarrow> int64" where
  "Edge_collectedCount e = edge_collected e"

definition Edge_emittedCount :: "Edge \<Rightarrow> int64" where
  "Edge_emittedCount e = edge_emitted e"

text \<open>
  Modelled from the spec: \<^verbatim>\<open>readGroupStats(visit)\<close> enumerates every group observed so far and
  calls \<open>visit\<close> with (group, collected, emitted, lastTags, lastDimensions). The callback
  of the source mutates a captured variable; here it transforms an accumulator.
\<close>

definition readGroupStats ::
  "Edge \<Rightarrow> (GroupID \<Rightarrow> int64 \<Rightarrow> int64 \<Rightarrow> Tags \<Rightarrow> string list \<Rightarrow> 'a \<Rightarrow> 'a) \<Rightarrow> 'a \<Rightarrow> 'a" where
  "readGroupStats e f acc =
     fold (\<lambda>(g, s). f g (collected s) (emitted s) (tags s) (dims s)) (groupStats e) acc"

text \<open>
  What a run routine can do when it is called: return an error or nil, raise a runtime
  fault (a Go panic, with the \<^verbatim>\<open>%s\<close> rendering of its value), or never return.
\<close>

datatype outcome = Returns "error option" | Panics string | NeverReturns

text \<open>
  An entry of the live statistics map is an \<^verbatim>\<open>expvar.Var\<close>, of which \<^verbatim>\<open>edot\<close> only uses
  \<^verbatim>\<open>String()\<close>. \<open>AvgExecVar\<close> is the node's own \<^verbatim>\<open>MaxDuration\<close>, installed by \<^verbatim>\<open>start\<close>;
  \<open>Rendered s\<close> is any other variable, by its rendering.
\<close>

datatype statVar = AvgExecVar | Rendered string

text \<open>
  A function value is held by the address of its code. The stop routine of a node is such a
  value: \<^verbatim>\<open>stopF func()\<close> is a closure, which can reach the node, its conduits and anything
  else, so what it does is a function on the whole world, and a world cannot be stored
  inside a world. The code behind the addresses is a parameter of \<^verbatim>\<open>stop\<close> below.
\<close>

type_synonym routine = nat

text \<open>
  \<^verbatim>\<open>type node struct\<close>. \<open>Name\<close>, \<open>Desc\<close>, \<open>Provides\<close> and \<open>Wants\<close> are the methods of the embedded
  \<^verbatim>\<open>pipeline.Node\<close>; \<open>taskName\<close> and \<open>taskType\<close> are \<^verbatim>\<open>et.Task.Name\<close> and \<^verbatim>\<open>et.Task.Type.String()\<close>.
  Nodes and conduits are held by reference. The run routine belongs to the node kind; it
  is represented by what the code at its exit depends on: how it ends, and what it does to
  state of the node kind's own, of type \<open>'x\<close>. \<open>stopF\<close> is \<open>None\<close> for the nil function value.
  \<open>errCh\<close> is the content of the buffered channel of capacity 1 (\<^verbatim>\<open>make(chan error, 1)\<close>),
  oldest first. \<open>finishedMu\<close> tells whether the mutex is locked; the zero value of a
  \<^verbatim>\<open>sync.Mutex\<close> is unlocked. \<open>statMap\<close> is nil (\<open>None\<close>) until \<^verbatim>\<open>start\<close> installs the live map;
  then it lists the entries of the map in the order \<^verbatim>\<open>Do\<close> visits them. The logger and the
  timer are left out.
\<close>

record 'x node =
  Name :: string
  Desc :: string
  Provides :: EdgeType
  Wants :: EdgeType
  taskName :: string
  taskType :: string
  parents :: "node_ref list"
  children :: "node_ref list"
  runF :: "byte list \<Rightarrow> 'x \<Rightarrow> outcome \<times> 'x"
  stopF :: "routine option"
  errCh :: "error option list"
  err :: "error option"
  finishedMu :: bool
  finished :: bool
  ins :: "edge_ref list"
  outs :: "edge_ref list"
  statsKey :: string
  statMap :: "(string \<times> statVar) list option"
  avgExecVar :: MaxDuration

text \<open>
  The actions of a node on things outside itself, in program order: \<^verbatim>\<open>Close()\<close> and
  \<^verbatim>\<open>Abort()\<close> on a conduit, \<^verbatim>\<open>logger.Println("E!", err)\<close>, and the send \<^verbatim>\<open>n.errCh <- err\<close>.
\<close>

datatype event = Close edge_ref | Abort edge_ref | Println "error option" | Send node_ref "error option"

fun is_Send :: "event \<Rightarrow> bool" where
  "is_Send (Send r e) = True"
| "is_Send ev = False"

text \<open>
  The world: the heap of nodes and of conduits (\<open>nextEdge\<close> is the next free conduit
  address), the statistics registry (the keys registered), the node kinds' own state, and
  the trace of events so far. Every address holds a node, or a conduit: the references the
  node code follows are taken to be neither nil nor dangling.
\<close>

record 'x world =
  nodes :: "node_ref \<Rightarrow> 'x node"
  edges :: "edge_ref \<Rightarrow> Edge"
  nextEdge :: edge_ref
  registry :: "string set"
  ext :: 'x
  events :: "event list"

text \<open>
  What the source file uses and does not define: the conduit constructor \<^verbatim>\<open>newEdge\<close>
  (\<open>None\<close> is its nil result), the constant \<^verbatim>\<open>defaultEdgeBufferSize\<close>, the registry's
  \<^verbatim>\<open>NewStatistics\<close> (the key and the fresh live map it returns), and \<^verbatim>\<open>time.Duration.String\<close>.
\<close>

record env =
  newEdge :: "string \<Rightarrow> string \<Rightarrow> string \<Rightarrow> EdgeType \<Rightarrow> nat \<Rightarrow> Edge option"
  defaultEdgeBufferSize :: nat
  NewStatistics :: "string \<Rightarrow> (string \<times> string) list \<Rightarrow> string \<times> (string \<times> statVar) list"
  Duration_String :: "int64 \<Rightarrow> string"

definition update_node :: "node_ref \<Rightarrow> ('x node \<Rightarrow> 'x node) \<Rightarrow> 'x world \<Rightarrow> 'x world" where
  "update_node r f w = w\<lparr>nodes := (nodes w)(r := f (nodes w r))\<rparr>"

definition emit :: "event \<Rightarrow> 'x world \<Rightarrow> 'x world" where
  "emit ev w = w\<lparr>events := events w @ [ev]\<rparr>"


section \<open>Linking\<close>

text \<open>\<^verbatim>\<open>func (n *node) addParentEdge(e *Edge) { n.ins = append(n.ins, e) }\<close>\<close>

definition addParentEdge :: "node_ref \<Rightarrow> edge_ref \<Rightarrow> 'x world \<Rightarrow> 'x world" where
  "addParentEdge r e w = update_node r (\<lambda>n. n\<lparr>ins := ins n @ [e]\<rparr>) w"

text \<open>\<^verbatim>\<open>func (n *node) addParent(p Node) { n.parents = append(n.parents, p) }\<close>\<close>

definition addParent :: "node_ref \<Rightarrow> node_ref \<Rightarrow> 'x world \<Rightarrow> 'x world" where
  "addParent r p w = update_node r (\<lambda>n. n\<lparr>parents := parents n @ [p]\<rparr>) w"

text \<open>
  \<^verbatim>\<open>func (n *node) addChild(c Node) (*Edge, error)\<close>. The child is appended to \<^verbatim>\<open>n.children\<close>
  before the conduit is constructed, so the world is returned beside the result also when
  the result is an error. A conduit that \<^verbatim>\<open>newEdge\<close> returns is allocated at \<open>nextEdge\<close>.
\<close>

definition addChild :: "env \<Rightarrow> node_ref \<Rightarrow> node_ref \<Rightarrow> 'x world \<Rightarrow> (error + edge_ref) \<times> 'x world" where
  "addChild env r c w =
     (if Provides (nodes w r) \<noteq> Wants (nodes w c) then
        (Inl (MismatchedEdges (Provides (nodes w r)) (Wants (nodes w c))), w)
      else
        (let w1 = update_node r (\<lambda>n. n\<lparr>children := children n @ [c]\<rparr>) w in
         case newEdge env (taskName (nodes w1 r)) (Name (nodes w1 r)) (Name (nodes w1 c))
                (Provides (nodes w1 r)) (defaultEdgeBufferSize env) of
           None \<Rightarrow> (Inl (UnknownEdgeType (Provides (nodes w1 r))), w1)
         | Some e \<Rightarrow>
             (let a = nextEdge w1;
                  w2 = w1\<lparr>edges := (edges w1)(a := e), nextEdge := Suc a\<rparr>
              in (Inr a, addParentEdge c a w2))))"

text \<open>\<^verbatim>\<open>func (n *node) linkChild(c Node) error\<close>; \<open>None\<close> is the nil error.\<close>

definition linkChild :: "env \<Rightarrow> node_ref \<Rightarrow> node_ref \<Rightarrow> 'x world \<Rightarrow> error option \<times> 'x world" where
  "linkChild env r c w =
     (case addChild env r c w of
        (Inl e, w1) \<Rightarrow> (Some e, w1)
      | (Inr a, w1) \<Rightarrow>
          (let w2 = addParent c r w1
           in (None, update_node r (\<lambda>n. n\<lparr>outs := outs n @ [a]\<rparr>) w2)))"

section \<open>Running a node\<close>

text \<open>
  Modelled from the spec: \<^verbatim>\<open>Close()\<close> and \<^verbatim>\<open>Abort()\<close> of a conduit, which are not under the
  source file. What they do to the conduit's queue is outside the node code; each call is
  recorded in the trace.
\<close>

definition Edge_Close :: "edge_ref \<Rightarrow> 'x world \<Rightarrow> 'x world" where
  "Edge_Close e w = emit (Close e) w"

definition Edge_Abort :: "edge_ref \<Rightarrow> 'x world \<Rightarrow> 'x world" where
  "Edge_Abort e w = emit (Abort e) w"

text \<open>\<^verbatim>\<open>for _, in := range n.ins { in.Abort() }\<close>\<close>

definition abortParentEdges :: "node_ref \<Rightarrow> 'x world \<Rightarrow> 'x world" where
  "abortParentEdges r w = fold Edge_Abort (ins (nodes w r)) w"

text \<open>\<^verbatim>\<open>for _, child := range n.outs { child.Close() }\<close>\<close>

definition closeChildEdges :: "node_ref \<Rightarrow> 'x world \<Rightarrow> 'x world" where
  "closeChildEdges r w = fold Edge_Close (outs (nodes w r)) w"

definition statAverageExecTime :: string where
  "statAverageExecTime = ''avg_exec_time''"

text \<open>
  \<^verbatim>\<open>statMap.Set(key, v)\<close> of the live map: the entry of the key is replaced, or added.
\<close>

fun statMap_Set :: "string \<Rightarrow> statVar \<Rightarrow> (string \<times> statVar) list \<Rightarrow> (string \<times> statVar) list" where
  "statMap_Set k v [] = [(k, v)]"
| "statMap_Set k v ((k', v') # kvs) =
     (if k' = k then (k, v) # kvs else (k', v') # statMap_Set k v kvs)"

text \<open>
  The part of \<^verbatim>\<open>start\<close> that runs in the caller: the node registers its statistics,
  installs the running maximum and makes the completion channel. The goroutine it then
  launches is \<open>start_go\<close> below.
\<close>

definition start :: "env \<Rightarrow> node_ref \<Rightarrow> 'x world \<Rightarrow> 'x world" where
  "start env r w =
     (let n = nodes w r;
          tgs = [(''task'', taskName n), (''node'', Name n), (''type'', taskType n), (''kind'', Desc n)];
          (key, sm) = NewStatistics env ''nodes'' tgs
      in (update_node r (\<lambda>n. n\<lparr>statsKey := key,
                                  avgExecVar := MaxDuration_zero,
                                  statMap := Some (statMap_Set statAverageExecTime AvgExecVar sm),
                                  errCh := []\<rparr>) w)
           \<lparr>registry := insert key (registry w)\<rparr>)"

text \<open>
  \<^verbatim>\<open>n.errCh <- err\<close> on the channel of capacity 1: the value is queued when the buffer has
  room; otherwise the sender blocks (\<open>None\<close>).
\<close>

definition errCh_send :: "node_ref \<Rightarrow> error option \<Rightarrow> 'x world \<Rightarrow> 'x world option" where
  "errCh_send r e w =
     (if length (errCh (nodes w r)) < 1
      then Some (emit (Send r e) (update_node r (\<lambda>n. n\<lparr>errCh := errCh n @ [e]\<rparr>) w))
      else None)"

text \<open>How the goroutine ends: it returns, it dies of an unrecovered panic, or it blocks.\<close>

datatype exit = Exited | Crashed string | Blocked

text \<open>
  The deferred function of the goroutine. It runs with the value \<open>e\<close> of the variable
  \<^verbatim>\<open>err\<close> and, when the run routine panicked, with the panic in flight (\<open>panicking\<close>).
  \<^verbatim>\<open>recover()\<close> returns the value of the panic in flight and ends the panic; without a
  panic it returns nil. \<^verbatim>\<open>runtime.Stack(trace, false)\<close> fills the 512-byte buffer with the
  start of the stack text \<open>stack\<close>. A panic that is still in flight when the deferred
  function returns kills the process.
\<close>

definition start_deferred ::
  "node_ref \<Rightarrow> error option \<Rightarrow> string option \<Rightarrow> string \<Rightarrow> 'x world \<Rightarrow> exit \<times> 'x world" where
  "start_deferred r e panicking stack w =
     (let w1 = closeChildEdges r w;
          (e', panicking', w2) =
            (if e \<noteq> None then
               (let (e1, p1) =
                      (case panicking of
                         Some v \<Rightarrow> (Some (PanicTrace v (take 512 stack)), None)
                       | None \<Rightarrow> (e, None));
                    w2 = abortParentEdges r w1
                in (e1, p1, emit (Println e1) w2))
             else (e, panicking, w1))
      in case errCh_send r e' w2 of
           None \<Rightarrow> (Blocked, w2)
         | Some w3 \<Rightarrow> (case panicking' of None \<Rightarrow> (Exited, w3) | Some v \<Rightarrow> (Crashed v, w3)))"

text \<open>
  The goroutine of \<^verbatim>\<open>start\<close>: \<^verbatim>\<open>var err error; defer func() {...}(); err = n.runF(snapshot)\<close>.
  When the run routine returns, its result is assigned to \<^verbatim>\<open>err\<close> and the deferred function
  runs. When it panics, the assignment never happens: the deferred function runs with
  \<^verbatim>\<open>err\<close> still nil and the panic in flight.
\<close>

definition start_go :: "string \<Rightarrow> node_ref \<Rightarrow> byte list \<Rightarrow> 'x world \<Rightarrow> exit \<times> 'x world" where
  "start_go stack r snapshot w =
     (case runF (nodes w r) snapshot (ext w) of
        (Returns e, x) \<Rightarrow> start_deferred r e None stack (w\<lparr>ext := x\<rparr>)
      | (Panics v, x) \<Rightarrow> start_deferred r None (Some v) stack (w\<lparr>ext := x\<rparr>)
      | (NeverReturns, x) \<Rightarrow> (Blocked, w\<lparr>ext := x\<rparr>))"

text \<open>
  Modelled from the spec: \<^verbatim>\<open>DeleteStatistics(key)\<close> is the registry's \<open>unregister(key)\<close>.
\<close>

definition DeleteStatistics :: "string \<Rightarrow> 'x world \<Rightarrow> 'x world" where
  "DeleteStatistics key w = w\<lparr>registry := registry w - {key}\<rparr>"

text \<open>
  \<^verbatim>\<open>func (n *node) stop()\<close>. \<open>call f w\<close> runs the code at address \<open>f\<close> on the world \<open>w\<close>; it
  is \<open>None\<close> when that code does not return to its caller (it panics, or it blocks for
  ever), and then \<^verbatim>\<open>stop\<close> does not return either. \<^verbatim>\<open>n.statsKey\<close> is read after the stop
  routine has run.
\<close>

definition stop :: "(routine \<Rightarrow> 'x world \<Rightarrow> 'x world option) \<Rightarrow> node_ref \<Rightarrow> 'x world \<Rightarrow> 'x world option" where
  "stop call r w =
     (case stopF (nodes w r) of
        None \<Rightarrow> Some (DeleteStatistics (statsKey (nodes w r)) w)
      | Some f \<Rightarrow>
          (case call f w of
             None \<Rightarrow> None
           | Some w1 \<Rightarrow> Some (DeleteStatistics (statsKey (nodes w1 r)) w1)))"

text \<open>
  \<^verbatim>\<open>func (n *node) Err() error\<close>, as one call that has the mutex to itself: the body between
  \<^verbatim>\<open>Lock\<close> and the deferred \<^verbatim>\<open>Unlock\<close>, as one step on the world. The receive \<^verbatim>\<open><-n.errCh\<close>
  takes the oldest value of the channel; on an empty channel it blocks, and the call does
  not return (\<open>None\<close>). The atomic steps of a call, for callers that overlap, follow below.
\<close>

definition Err :: "node_ref \<Rightarrow> 'x world \<Rightarrow> (error option \<times> 'x world) option" where
  "Err r w =
     (let n = nodes w r in
      if \<not> finished n then
        (case errCh n of
           [] \<Rightarrow> None
         | v # rest \<Rightarrow>
             Some (v, update_node r (\<lambda>n. n\<lparr>finished := True, err := v, errCh := rest\<rparr>) w))
      else Some (err n, w))"

text \<open>\<open>N\<close> calls of \<^verbatim>\<open>Err()\<close> one after the other, with the results in call order.\<close>

fun Err_calls :: "nat \<Rightarrow> node_ref \<Rightarrow> 'x world \<Rightarrow> (error option list \<times> 'x world) option" where
  "Err_calls 0 r w = Some ([], w)"
| "Err_calls (Suc k) r w =
     (case Err r w of
        None \<Rightarrow> None
      | Some (v, w1) \<Rightarrow>
          (case Err_calls k r w1 of
             None \<Rightarrow> None
           | Some (vs, w2) \<Rightarrow> Some (v # vs, w2)))"


subsection \<open>Overlapping callers of \<^verbatim>\<open>Err\<close>\<close>

text \<open>
  Several goroutines may call \<^verbatim>\<open>Err()\<close> on one node at the same time. A call is a sequence of
  atomic steps; where a caller stands is its program counter:
  \<^item> \<open>AtLock\<close>: before \<^verbatim>\<open>n.finishedMu.Lock()\<close>;
  \<^item> \<open>AtCheck\<close>: the mutex is held, before the test \<^verbatim>\<open>!n.finished\<close>;
  \<^item> \<open>AtSetFinished\<close>: before \<^verbatim>\<open>n.finished = true\<close>;
  \<^item> \<open>AtReceive\<close>: before the receive \<^verbatim>\<open><-n.errCh\<close>;
  \<^item> \<open>AtStore v\<close>: \<open>v\<close> has been received, before the assignment to \<^verbatim>\<open>n.err\<close>;
  \<^item> \<open>AtReturn\<close>: before \<^verbatim>\<open>return n.err\<close> evaluates its operand;
  \<^item> \<open>AtUnlock e\<close>: the result \<open>e\<close> is set, before the deferred \<^verbatim>\<open>n.finishedMu.Unlock()\<close>;
  \<^item> \<open>ErrReturned e\<close>: the call has returned \<open>e\<close>.
\<close>

datatype err_pc =
    AtLock | AtCheck | AtSetFinished | AtReceive | AtStore "error option" | AtReturn
  | AtUnlock "error option" | ErrReturned "error option"

text \<open>
  One atomic step of a caller on the node. \<^verbatim>\<open>Err()\<close> reads and writes fields of its receiver
  only. \<^verbatim>\<open>Lock()\<close> on a locked mutex and the receive on an empty channel block: the caller
  stays where it is and the node is unchanged. A caller that has returned takes no step.
\<close>

fun Err_step :: "'x node \<Rightarrow> err_pc \<Rightarrow> 'x node \<times> err_pc" where
  "Err_step n AtLock = (if finishedMu n then (n, AtLock) else (n\<lparr>finishedMu := True\<rparr>, AtCheck))"
| "Err_step n AtCheck = (if \<not> finished n then (n, AtSetFinished) else (n, AtReturn))"
| "Err_step n AtSetFinished = (n\<lparr>finished := True\<rparr>, AtReceive)"
| "Err_step n AtReceive =
     (case errCh n of [] \<Rightarrow> (n, AtReceive) | v # rest \<Rightarrow> (n\<lparr>errCh := rest\<rparr>, AtStore v))"
| "Err_step n (AtStore v) = (n\<lparr>err := v\<rparr>, AtReturn)"
| "Err_step n AtReturn = (n, AtUnlock (err n))"
| "Err_step n (AtUnlock e) = (n\<lparr>finishedMu := False\<rparr>, ErrReturned e)"
| "Err_step n (ErrReturned e) = (n, ErrReturned e)"

text \<open>
  An interleaving is a schedule: the list of the callers' indices in the order in which
  they take their steps. An index that names no caller is skipped.
\<close>

fun Err_run :: "nat list \<Rightarrow> 'x node \<times> err_pc list \<Rightarrow> 'x node \<times> err_pc list" where
  "Err_run [] s = s"
| "Err_run (k # ks) (n, cs) =
     (if k < length cs
      then Err_run ks (fst (Err_step n (cs ! k)), cs[k := snd (Err_step n (cs ! k))])
      else Err_run ks (n, cs))"

text \<open>
  \<open>N\<close> callers of \<^verbatim>\<open>Err()\<close> on the node at \<open>r\<close>, all before their first step, run under the
  schedule \<open>ks\<close>: the world and the program counters they leave.
\<close>

definition Err_schedule :: "nat list \<Rightarrow> node_ref \<Rightarrow> nat \<Rightarrow> 'x world \<Rightarrow> 'x world \<times> err_pc list" where
  "Err_schedule ks r N w =
     (case Err_run ks (nodes w r, replicate N AtLock) of
        (n', cs) \<Rightarrow> (update_node r (\<lambda>n. n') w, cs))"

text \<open>The results of the calls that have returned, in the order of the callers.\<close>

fun Err_returned :: "err_pc list \<Rightarrow> error option list" where
  "Err_returned [] = []"
| "Err_returned (ErrReturned e # cs) = e # Err_returned cs"
| "Err_returned (c # cs) = Err_returned cs"

text \<open>A caller holds the mutex from its \<^verbatim>\<open>Lock\<close> to its \<^verbatim>\<open>Unlock\<close>.\<close>

fun holds_mutex :: "err_pc \<Rightarrow> bool" where
  "holds_mutex AtLock = False"
| "holds_mutex (ErrReturned e) = False"
| "holds_mutex c = True"

text \<open>
  The number of steps a caller has before it, at most, and the number of steps of a
  schedule that are not the waiting of a blocked caller or the idling of a returned one.
\<close>

fun remaining :: "err_pc \<Rightarrow> nat" where
  "remaining AtLock = 7"
| "remaining AtCheck = 6"
| "remaining AtSetFinished = 5"
| "remaining AtReceive = 4"
| "remaining (AtStore v) = 3"
| "remaining AtReturn = 2"
| "remaining (AtUnlock e) = 1"
| "remaining (ErrReturned e) = 0"

fun Err_work :: "nat list \<Rightarrow> 'x node \<times> err_pc list \<Rightarrow> nat" where
  "Err_work [] s = 0"
| "Err_work (k # ks) (n, cs) =
     (if k < length cs
      then (if snd (Err_step n (cs ! k)) = cs ! k then 0 else 1)
           + Err_work ks (fst (Err_step n (cs ! k)), cs[k := snd (Err_step n (cs ! k))])
      else Err_work ks (n, cs))"

text \<open>
  What holds of the node and the callers at every moment, on a node \<open>n0\<close> whose goroutine has
  sent \<open>v\<close> and on which \<^verbatim>\<open>Err()\<close> has not been called: no field but the mutex, the flag, the
  cached error and the channel differs from \<open>n0\<close>; those four are in one of four stages; the
  stage fits the program counter of every caller; the mutex is locked exactly when a
  caller holds it, and no two callers do.
\<close>

definition Err_frame :: "'x node \<Rightarrow> 'x node \<Rightarrow> bool" where
  "Err_frame n0 n \<longleftrightarrow>
     n\<lparr>finishedMu := finishedMu n0, finished := finished n0, err := err n0, errCh := errCh n0\<rparr> = n0"

definition fresh :: "'x node \<Rightarrow> error option \<Rightarrow> error option list \<Rightarrow> 'x node \<Rightarrow> bool" where
  "fresh n0 v rest n \<longleftrightarrow> \<not> finished n \<and> err n = err n0 \<and> errCh n = v # rest"

definition flagged :: "'x node \<Rightarrow> error option \<Rightarrow> error option list \<Rightarrow> 'x node \<Rightarrow> bool" where
  "flagged n0 v rest n \<longleftrightarrow> finished n \<and> err n = err n0 \<and> errCh n = v # rest"

definition received :: "'x node \<Rightarrow> error option \<Rightarrow> error option list \<Rightarrow> 'x node \<Rightarrow> bool" where
  "received n0 v rest n \<longleftrightarrow> finished n \<and> err n = err n0 \<and> errCh n = rest"

definition cached :: "error option \<Rightarrow> error option list \<Rightarrow> 'x node \<Rightarrow> bool" where
  "cached v rest n \<longleftrightarrow> finished n \<and> err n = v \<and> errCh n = rest"

fun pc_ok :: "'x node \<Rightarrow> error option \<Rightarrow> error option list \<Rightarrow> 'x node \<Rightarrow> err_pc \<Rightarrow> bool" where
  "pc_ok n0 v rest n AtLock = True"
| "pc_ok n0 v rest n AtCheck = (fresh n0 v rest n \<or> cached v rest n)"
| "pc_ok n0 v rest n AtSetFinished = fresh n0 v rest n"
| "pc_ok n0 v rest n AtReceive = flagged n0 v rest n"
| "pc_ok n0 v rest n (AtStore x) = (received n0 v rest n \<and> x = v)"
| "pc_ok n0 v rest n AtReturn = cached v rest n"
| "pc_ok n0 v rest n (AtUnlock e) = (cached v rest n \<and> e = v)"
| "pc_ok n0 v rest n (ErrReturned e) = (cached v rest n \<and> e = v)"

definition Err_inv :: "'x node \<Rightarrow> error option \<Rightarrow> error option list \<Rightarrow> 'x node \<times> err_pc list \<Rightarrow> bool" where
  "Err_inv n0 v rest s \<longleftrightarrow>
     (case s of (n, cs) \<Rightarrow>
        Err_frame n0 n
        \<and> (\<forall>i<length cs. pc_ok n0 v rest n (cs ! i))
        \<and> (finishedMu n \<longleftrightarrow> (\<exists>i<length cs. holds_mutex (cs ! i)))
        \<and> (\<forall>i<length cs. \<forall>j<length cs. holds_mutex (cs ! i) \<longrightarrow> holds_mutex (cs ! j) \<longrightarrow> i = j)
        \<and> (\<not> finishedMu n \<longrightarrow> fresh n0 v rest n \<or> cached v rest n))"


section \<open>Statistics\<close>

text \<open>
  \<^verbatim>\<open>func (n *node) collectedCount() (count int64)\<close>: the named result starts at 0 and the loop
  adds \<^verbatim>\<open>in.emittedCount()\<close> of every input conduit, in \<^verbatim>\<open>int64\<close> arithmetic.
\<close>

definition collectedCount :: "node_ref \<Rightarrow> 'x world \<Rightarrow> int64" where
  "collectedCount r w =
     fold (\<lambda>i count. count + Edge_emittedCount (edges w i)) (ins (nodes w r)) 0"

text \<open>\<^verbatim>\<open>type nodeStats struct\<close>; \<^verbatim>\<open>models.Fields\<close> is a map from field names to values.\<close>

record nodeStats =
  Fields :: "string \<rightharpoonup> int64"
  Tags :: Tags
  Dimensions :: "string list"

text \<open>
  \<^verbatim>\<open>func (n *node) nodeStatsByGroup() (stats map[models.GroupID]nodeStats)\<close>. The named
  result is the nil map (\<open>None\<close>) unless the node has an output conduit; then it is a fresh
  map that the callback fills from the first output conduit. The callback names its counter
  arguments \<^verbatim>\<open>c, e\<close> and stores \<^verbatim>\<open>c\<close>.
\<close>

definition nodeStatsByGroup :: "node_ref \<Rightarrow> 'x world \<Rightarrow> (GroupID \<rightharpoonup> nodeStats) option" where
  "nodeStatsByGroup r w =
     (let n = nodes w r in
      if length (outs n) > 0 then
        Some (readGroupStats (edges w (outs n ! 0))
               (\<lambda>group c e tgs dms stats.
                  stats(group \<mapsto> \<lparr>Fields = [''emitted'' \<mapsto> c], Tags = tgs, Dimensions = dms\<rparr>))
               Map.empty)
      else None)"

text \<open>The value a report shows under a field name for a group, if any.\<close>

definition reported_field :: "node_ref \<Rightarrow> 'x world \<Rightarrow> GroupID \<Rightarrow> string \<Rightarrow> int64 option" where
  "reported_field r w g k =
     (case nodeStatsByGroup r w of
        None \<Rightarrow> None
      | Some stats \<Rightarrow> (case stats g of None \<Rightarrow> None | Some s \<Rightarrow> Fields s k))"

section \<open>Graph export\<close>

text \<open>The verb \<^verbatim>\<open>%d\<close> of \<^verbatim>\<open>fmt.Sprintf\<close> on an \<^verbatim>\<open>int64\<close>: the signed decimal numeral.\<close>

fun digits10 :: "nat \<Rightarrow> string" where
  "digits10 k =
     (if k < 10 then [''0123456789'' ! k]
      else digits10 (k div 10) @ [''0123456789'' ! (k mod 10)])"

declare digits10.simps [simp del]

definition fmt_d :: "int64 \<Rightarrow> string" where
  "fmt_d x = (if sint x < 0 then CHR ''-'' # digits10 (nat (- sint x)) else digits10 (nat (sint x)))"

definition dquote :: char where
  "dquote = CHR 0x22"

definition newline :: char where
  "newline = CHR 0x0A"

text \<open>
  \<^verbatim>\<open>func (v *MaxDuration) String() string { return time.Duration(v.Int()).String() }\<close>
\<close>

definition MaxDuration_String :: "env \<Rightarrow> MaxDuration \<Rightarrow> string" where
  "MaxDuration_String env v = Duration_String env (MaxDuration_Int v)"

text \<open>\<^verbatim>\<open>kv.Value.String()\<close> for an entry of the node's live map.\<close>

definition Value_String :: "env \<Rightarrow> 'x node \<Rightarrow> statVar \<Rightarrow> string" where
  "Value_String env n v =
     (case v of AvgExecVar \<Rightarrow> MaxDuration_String env (avgExecVar n) | Rendered s \<Rightarrow> s)"

text \<open>
  \<^verbatim>\<open>for i, c := range n.children { ... n.outs[i].collectedCount() ... }\<close>: the loop over the
  children from index \<open>i\<close> on, writing one line per child with the format \<open>line\<close>. The
  index expression \<^verbatim>\<open>n.outs[i]\<close> panics when \<open>i\<close> is not below the length of \<^verbatim>\<open>n.outs\<close>;
  what was written to the buffer before stays written.
\<close>

fun edot_children ::
  "'x world \<Rightarrow> 'x node \<Rightarrow> (string \<Rightarrow> string \<Rightarrow> int64 \<Rightarrow> string) \<Rightarrow> nat \<Rightarrow> node_ref list \<Rightarrow> string
     \<Rightarrow> panic option \<times> string" where
  "edot_children w n line i [] buf = (None, buf)"
| "edot_children w n line i (c # cs) buf =
     (if i < length (outs n) then
        edot_children w n line (Suc i) cs
          (buf @ line (Name n) (Name (nodes w c)) (Edge_collectedCount (edges w (outs n ! i))))
      else (Some (IndexOutOfRange i (length (outs n))), buf))"

text \<open>
  \<^verbatim>\<open>func (n *node) edot(buf *bytes.Buffer, labels bool)\<close>: the buffer content is passed in
  and returned, beside the panic if one ended the call. \<^verbatim>\<open>n.statMap.Do\<close> on the nil map of a
  node that was never started belongs to code outside the source file; it is taken to
  dereference the nil pointer, and no property below rests on that case.
\<close>

definition edot :: "env \<Rightarrow> node_ref \<Rightarrow> string \<Rightarrow> bool \<Rightarrow> 'x world \<Rightarrow> panic option \<times> string" where
  "edot env r buf labels w =
     (let n = nodes w r in
      if labels then
        (let b1 = buf @ [newline] @ Name n @ '' [label='' @ [dquote] @ Name n @ '' '' in
         case statMap n of
           None \<Rightarrow> (Some NilPointerDereference, b1)
         | Some kvs \<Rightarrow>
             (let b2 = fold (\<lambda>(k, v) b. b @ k @ ''='' @ Value_String env n v @ '' '') kvs b1;
                  b3 = b2 @ [dquote] @ ''];'' @ [newline]
              in edot_children w n
                   (\<lambda>p c cnt. p @ '' -> '' @ c @ '' [label='' @ [dquote] @ fmt_d cnt @ [dquote]
                                @ ''];'' @ [newline])
                   0 (children n) b3))
      else
        (let b1 = buf @ [newline] @ Name n @ '' ['' in
         case statMap n of
           None \<Rightarrow> (Some NilPointerDereference, b1)
         | Some kvs \<Rightarrow>
             (let b2 = fold (\<lambda>(k, v) b. b @ k @ ''='' @ [dquote] @ Value_String env n v @ [dquote] @ '' '')
                         kvs b1;
                  b3 = b2 @ ''];'' @ [newline]
              in edot_children w n
                   (\<lambda>p c cnt. p @ '' -> '' @ c @ '' [processed='' @ [dquote] @ fmt_d cnt @ [dquote]
                                @ ''];'' @ [newline])
                   0 (children n) b3)))"

text \<open>
  What \<^verbatim>\<open>edot\<close> relies on when it reads \<^verbatim>\<open>n.outs[i]\<close> for the \<open>i\<close>-th child: the output
  conduits of the node are as many as its children, and the \<open>i\<close>-th of them is the conduit
  that enters the \<open>i\<close>-th child.
\<close>

definition well_linked :: "'x world \<Rightarrow> node_ref \<Rightarrow> bool" where
  "well_linked w r \<longleftrightarrow>
     list_all2 (\<lambda>a c. a \<in> set (ins (nodes w c))) (outs (nodes w r)) (children (nodes w r))"

section \<open>Example configurations\<close>

text \<open>
  A node as its constructor leaves it: nothing linked, nothing started. Its run routine
  returns nil at once and it has no stop routine. The node kinds' own state is a counter.
\<close>

definition new_node :: "string \<Rightarrow> EdgeType \<Rightarrow> EdgeType \<Rightarrow> nat node" where
  "new_node nm wants provides =
     \<lparr>Name = nm, Desc = ''kind'', Provides = provides, Wants = wants,
      taskName = ''task'', taskType = ''stream'', parents = [], children = [],
      runF = (\<lambda>snapshot x. (Returns None, x)), stopF = None,
      errCh = [], err = None, finishedMu = False, finished = False, ins = [], outs = [],
      statsKey = [], statMap = None, avgExecVar = MaxDuration_zero\<rparr>"

definition new_edge :: Edge where
  "new_edge = \<lparr>edge_collected = 0, edge_emitted = 0, groupStats = []\<rparr>"

text \<open>A world of two nodes, \<open>A\<close> at address 0 and \<open>B\<close> at address 1, and no conduit.\<close>

definition two_nodes :: "nat node \<Rightarrow> nat node \<Rightarrow> nat world" where
  "two_nodes a b =
     \<lparr>nodes = (\<lambda>r. if r = 0 then a else b), edges = (\<lambda>a. new_edge), nextEdge = 0,
      registry = {}, ext = 0, events = []\<rparr>"

text \<open>
  A node fed by two conduits, at addresses 0 and 1, that have passed 3 and 4 records on.
\<close>

definition fan_in_world :: "nat world" where
  "fan_in_world =
     (two_nodes ((new_node ''join'' StreamEdge StreamEdge)\<lparr>ins := [0, 1]\<rparr>)
                (new_node ''src'' NoEdge StreamEdge))
       \<lparr>edges := (\<lambda>a. if a = 0 then new_edge\<lparr>edge_collected := 3, edge_emitted := 3\<rparr>
                      else new_edge\<lparr>edge_collected := 5, edge_emitted := 4\<rparr>),
        nextEdge := 2\<rparr>"

text \<open>
  A started node with one input conduit (address 0) and two output conduits (addresses 1
  and 2), whose run routine ends as \<open>oc\<close> says. Its completion channel is empty, as \<^verbatim>\<open>start\<close>
  made it.
\<close>

definition run_world :: "outcome \<Rightarrow> nat world" where
  "run_world oc =
     (two_nodes ((new_node ''B'' StreamEdge StreamEdge)
                   \<lparr>ins := [0], outs := [1, 2], runF := (\<lambda>snapshot x. (oc, Suc x))\<rparr>)
                (new_node ''A'' NoEdge StreamEdge))
       \<lparr>nextEdge := 3\<rparr>"

text \<open>The same node after its run routine has returned an error and the goroutine has exited.\<close>

definition terminated_world :: "nat world" where
  "terminated_world = snd (start_go [] 0 [] (run_world (Returns (Some (RunError ''lost input'')))))"

text \<open>
  An environment whose conduit constructor knows the Stream and the Batch shape and
  returns nil for any other type. Durations are rendered as Go renders those below a
  microsecond: \<^verbatim>\<open>0s\<close>, and a count of nanoseconds otherwise.
\<close>

definition known_edges_env :: env where
  "known_edges_env =
     \<lparr>newEdge = (\<lambda>task parent child t size.
                   if t = StreamEdge \<or> t = BatchEdge then Some new_edge else None),
      defaultEdgeBufferSize = 1000,
      NewStatistics = (\<lambda>category tgs. (''nodes-1'', [])),
      Duration_String = (\<lambda>x. if x = 0 then ''0s'' else fmt_d x @ ''ns'')\<rparr>"



text \<open>Two nodes whose declared types agree on a type the constructor does not know.\<close>

definition no_edge_pair :: "nat world" where
  "no_edge_pair = two_nodes (new_node ''A'' NoEdge NoEdge) (new_node ''B'' NoEdge StreamEdge)"

text \<open>
  Node \<open>A\<close> at address 0 with two output conduits, at addresses 0 and 1, and node \<open>B\<close> at
  address 1 with no output. On conduit 0, group \<open>G1\<close> has 3 records written and 1 read, group
  \<open>G2\<close> has 2 written and 2 read; conduit 1 has seen group \<open>G3\<close> only.
\<close>

definition backlog_world :: "nat world" where
  "backlog_world =
     (two_nodes ((new_node ''A'' NoEdge StreamEdge)\<lparr>children := [1, 1], outs := [0, 1]\<rparr>)
                ((new_node ''B'' StreamEdge StreamEdge)\<lparr>ins := [0, 1], parents := [0, 0]\<rparr>))
       \<lparr>edges := (\<lambda>a. if a = 0 then
                          \<lparr>edge_collected = 5, edge_emitted = 3,
                           groupStats =
                             [(''G1'', \<lparr>collected = 3, emitted = 1,
                                        tags = [''host'' \<mapsto> ''a''], dims = [''host'']\<rparr>),
                              (''G2'', \<lparr>collected = 2, emitted = 2,
                                        tags = [''host'' \<mapsto> ''b''], dims = [''host'']\<rparr>)]\<rparr>
                        else
                          \<lparr>edge_collected = 4, edge_emitted = 4,
                           groupStats =
                             [(''G3'', \<lparr>collected = 4, emitted = 4,
                                        tags = [''host'' \<mapsto> ''c''], dims = [''host'']\<rparr>)]\<rparr>),
        nextEdge := 2\<rparr>"

text \<open>
  Code of the node kinds of the examples: the routine at address 0 counts its calls in the
  node kind's state, the routine at address 1 raises that counter to 1 if it is lower, and
  the routine at any other address does not return.
\<close>

definition kind_code :: "routine \<Rightarrow> nat world \<Rightarrow> nat world option" where
  "kind_code f w =
     (if f = 0 then Some (w\<lparr>ext := Suc (ext w)\<rparr>)
      else if f = 1 then Some (w\<lparr>ext := max 1 (ext w)\<rparr>)
      else None)"

text \<open>
  A started node \<open>W\<close> whose stop routine is the counting routine and whose run routine waits
  until the counter has left 0, beside a node \<open>A\<close> without a stop routine.
\<close>

definition counting_stop_world :: "nat world" where
  "counting_stop_world =
     start known_edges_env 0
       (two_nodes ((new_node ''W'' StreamEdge StreamEdge)
                     \<lparr>stopF := Some 0,
                      runF := (\<lambda>snapshot x. (if x = 0 then NeverReturns else Returns None, x))\<rparr>)
                  (new_node ''A'' NoEdge StreamEdge))"

text \<open>
  Node \<open>A\<close> linked to node \<open>B\<close> over a Stream conduit and then started; the conduit has had
  12 records written to it.
\<close>

definition linked_world :: "nat world" where
  "linked_world =
     (let w1 = snd (linkChild known_edges_env 0 1
                     (two_nodes (new_node ''A'' NoEdge StreamEdge) (new_node ''B'' StreamEdge StreamEdge)));
          w2 = w1\<lparr>edges := (edges w1)(0 := new_edge\<lparr>edge_collected := 12, edge_emitted := 7\<rparr>)\<rparr>
      in start known_edges_env 0 w2)"


section \<open>Properties of the running maximum\<close>

lemma Set_loop_once: "Set_loop nxt v = (if d v <s nxt then v\<lparr>d := nxt\<rparr> else v)"
  by (subst Set_loop.simps) (simp add: CompareAndSwapInt64_def MaxDuration_Int_def)

lemma MaxDuration_Set_once:
  "MaxDuration_Set toInt64 x v = (if d v <s toInt64 x then v\<lparr>d := toInt64 x\<rparr> else v)"
  by (simp add: MaxDuration_Set_def Set_loop_once)

lemma Int_Set_max:
  "sint (MaxDuration_Int (MaxDuration_Set f x v)) = max (sint (MaxDuration_Int v)) (sint (f x))"
  by (simp add: MaxDuration_Set_once MaxDuration_Int_def word_sless_alt max_def)

lemma Int_Set_all_fold:
  "sint (MaxDuration_Int (Set_all f xs v)) =
     fold (\<lambda>x m. max m (sint (f x))) xs (sint (MaxDuration_Int v))"
  by (induction xs arbitrary: v) (simp_all add: Int_Set_max)

lemma fold_max_Max:
  fixes m0 :: int
  shows "fold (\<lambda>x m. max m (g x)) xs m0 = Max (insert m0 (g ` set xs))"
proof (induction xs arbitrary: m0)
  case Nil
  then show ?case by simp
next
  case (Cons x xs)
  have "Max (insert (max m0 (g x)) (g ` set xs)) = Max (insert m0 (insert (g x) (g ` set xs)))"
  proof (cases "set xs = {}")
    case True
    then show ?thesis by (simp add: max.commute)
  next
    case False
    then show ?thesis by (simp add: max.assoc)
  qed
  with Cons show ?case by simp
qed

lemma fold_max_ge:
  fixes m0 :: int
  shows "m0 \<le> fold (\<lambda>x m. max m (g x)) xs m0"
  by (simp add: fold_max_Max)

lemma Set_all_append: "Set_all f (xs @ ys) v = Set_all f ys (Set_all f xs v)"
  by (induction xs arbitrary: v) simp_all

text \<open>
  C5. \<^verbatim>\<open>Set(v)\<close> changes the stored value only when \<^verbatim>\<open>int64(v)\<close> exceeds it, and then stores
  \<^verbatim>\<open>int64(v)\<close>; the stored value never decreases over a call, nor from any prefix of a
  sequence of calls to the whole sequence; and after \<^verbatim>\<open>Set(v1); ...; Set(vn)\<close> on a fresh metric
  the value read is the maximum of 0 and the \<^verbatim>\<open>int64(vi)\<close>. Values are compared as signed
  64-bit integers.
\<close>

theorem MaxDuration_Set_running_max:
  "(MaxDuration_Set f x v \<noteq> v \<longrightarrow> d v <s f x)
   \<and> (d v <s f x \<longrightarrow> MaxDuration_Int (MaxDuration_Set f x v) = f x)
   \<and> sint (MaxDuration_Int v) \<le> sint (MaxDuration_Int (MaxDuration_Set f x v))
   \<and> sint (MaxDuration_Int (Set_all f xs v)) \<le> sint (MaxDuration_Int (Set_all f (xs @ ys) v))
   \<and> sint (MaxDuration_Int (Set_all f xs MaxDuration_zero)) = Max (insert 0 ((\<lambda>x. sint (f x)) ` set xs))"
proof -
  have a: "MaxDuration_Set f x v \<noteq> v \<longrightarrow> d v <s f x"
    by (simp add: MaxDuration_Set_once)
  have b: "d v <s f x \<longrightarrow> MaxDuration_Int (MaxDuration_Set f x v) = f x"
    by (simp add: MaxDuration_Set_once MaxDuration_Int_def)
  have c: "sint (MaxDuration_Int v) \<le> sint (MaxDuration_Int (MaxDuration_Set f x v))"
    by (simp add: Int_Set_max)
  have e: "sint (MaxDuration_Int (Set_all f xs v)) \<le> sint (MaxDuration_Int (Set_all f (xs @ ys) v))"
    unfolding Set_all_append Int_Set_all_fold [of f ys] by (rule fold_max_ge)
  have g: "sint (MaxDuration_Int (Set_all f xs MaxDuration_zero)) = Max (insert 0 ((\<lambda>x. sint (f x)) ` set xs))"
    unfolding Int_Set_all_fold fold_max_Max by (simp add: MaxDuration_zero_def MaxDuration_Int_def)
  from a b c e g show ?thesis by blast
qed

theorem MaxDuration_Set_running_max_witness:
  "MaxDuration_Set (word_of_int :: int \<Rightarrow> int64) 7 \<lparr>d = 3\<rparr> \<noteq> \<lparr>d = 3\<rparr>
   \<and> (3 :: int64) <s word_of_int 7
   \<and> MaxDuration_Int (MaxDuration_Set (word_of_int :: int \<Rightarrow> int64) 7 \<lparr>d = 3\<rparr>) = 7
   \<and> MaxDuration_Int (MaxDuration_Set (word_of_int :: int \<Rightarrow> int64) (- 5) \<lparr>d = 3\<rparr>) = 3
   \<and> sint (MaxDuration_Int (Set_all (word_of_int :: int \<Rightarrow> int64) [3, - 5, 7, 2] MaxDuration_zero)) = 7
   \<and> Max (insert 0 ((\<lambda>x. sint (word_of_int x :: int64)) ` set [3, - 5, 7, 2])) = 7"
proof -
  let ?f = "word_of_int :: int \<Rightarrow> int64"
  have h: "(3 :: int64) <s ?f 7"
    by (simp add: word_sless_alt)
  have n: "\<not> (3 :: int64) <s ?f (- 5)"
    by (simp add: word_sless_alt)
  note t = MaxDuration_Set_running_max [of ?f 7 "\<lparr>d = 3\<rparr>" "[3, - 5, 7, 2]" "[]"]
  note u = MaxDuration_Set_running_max [of ?f "- 5" "\<lparr>d = 3\<rparr>" "[]" "[]"]
  have s7: "MaxDuration_Int (MaxDuration_Set ?f 7 \<lparr>d = 3\<rparr>) = 7"
    using t h by simp
  have ne: "MaxDuration_Set ?f 7 \<lparr>d = 3\<rparr> \<noteq> \<lparr>d = 3\<rparr>"
    using s7 by (auto simp: MaxDuration_Int_def)
  have s5: "MaxDuration_Int (MaxDuration_Set ?f (- 5) \<lparr>d = 3\<rparr>) = 3"
    using u n by (auto simp: MaxDuration_Int_def)
  have m: "Max (insert 0 ((\<lambda>x. sint (?f x)) ` set [3, - 5, 7, 2])) = 7"
    by simp
  have fin: "sint (MaxDuration_Int (Set_all ?f [3, - 5, 7, 2] MaxDuration_zero)) = 7"
    using t m by simp
  from h s7 ne s5 m fin show ?thesis by simp
qed

subsection \<open>Any interleaving of concurrent callers\<close>

lemma Set_step_cases:
  obtains (load) nxt where "c = (nxt, AtLoad)" "Set_step v c = (v, (nxt, AtCompare (d v)))"
  | (swap) nxt where "c = (nxt, AtCompare (d v))" "d v <s nxt" "Set_step v c = (v\<lparr>d := nxt\<rparr>, (nxt, Returned))"
  | (retry) nxt cur where "c = (nxt, AtCompare cur)" "cur <s nxt" "cur \<noteq> d v" "Set_step v c = (v, (nxt, AtLoad))"
  | (keep) nxt cur where "c = (nxt, AtCompare cur)" "\<not> cur <s nxt" "Set_step v c = (v, (nxt, Returned))"
  | (returned) nxt where "c = (nxt, Returned)" "Set_step v c = (v, c)"
proof (cases c)
  case (Pair nxt p)
  show ?thesis
  proof (cases p)
    case AtLoad
    with Pair load show ?thesis
      by (simp add: Set_step_def MaxDuration_Int_def)
  next
    case (AtCompare cur)
    show ?thesis
    proof (cases "cur <s nxt")
      case True
      show ?thesis
      proof (cases "cur = d v")
        case True
        with \<open>cur <s nxt\<close> Pair AtCompare swap show ?thesis
          by (simp add: Set_step_def CompareAndSwapInt64_def)
      next
        case False
        with \<open>cur <s nxt\<close> Pair AtCompare retry show ?thesis
          by (simp add: Set_step_def CompareAndSwapInt64_def)
      qed
    next
      case False
      with Pair AtCompare keep show ?thesis
        by (simp add: Set_step_def)
    qed
  next
    case Returned
    with Pair returned show ?thesis
      by (simp add: Set_step_def)
  qed
qed

lemma Set_step_value:
  "fst (snd (Set_step v c)) = fst c"
  by (cases c v rule: Set_step_cases) simp_all

lemma Set_step_mono: "sint (d v) \<le> sint (d (fst (Set_step v c)))"
  by (cases c v rule: Set_step_cases) (simp_all add: word_sless_alt)


lemma map_fst_update:
  assumes "k < length cs" and "fst c' = fst (cs ! k)"
  shows "map fst (cs[k := c']) = map fst cs"
  using assms by (simp add: map_update list_update_same_conv)

lemma set_inv_update:
  assumes inv: "set_inv v0 (v, cs)" and k: "k < length cs"
    and same: "fst c' = fst (cs ! k)"
    and stored: "d v' = d v \<or> d v' = fst (cs ! k)"
    and up: "sint (d v) \<le> sint (d v')"
    and ret': "snd c' = Returned \<Longrightarrow> sint (fst c') \<le> sint (d v')"
    and cur': "\<And>x. snd c' = AtCompare x \<Longrightarrow> sint x \<le> sint (d v')"
  shows "set_inv v0 (v', cs[k := c'])"
proof -
  from inv have st: "d v = v0 \<or> d v \<in> fst ` set cs" and lo: "sint v0 \<le> sint (d v)"
    and all: "\<forall>c \<in> set cs. (snd c = Returned \<longrightarrow> sint (fst c) \<le> sint (d v))
                         \<and> (\<forall>x. snd c = AtCompare x \<longrightarrow> sint x \<le> sint (d v))"
    unfolding set_inv_def by simp_all
  have vals: "fst ` set (cs[k := c']) = fst ` set cs"
    using map_fst_update [OF k same] by (metis set_map)
  have "cs ! k \<in> set cs"
    using k by simp
  then have "fst (cs ! k) \<in> fst ` set cs"
    by (rule imageI)
  have a: "d v' = v0 \<or> d v' \<in> fst ` set (cs[k := c'])"
    unfolding vals
  proof (cases "d v' = d v")
    case True
    then show "d v' = v0 \<or> d v' \<in> fst ` set cs"
      using st by simp
  next
    case False
    with stored have "d v' = fst (cs ! k)"
      by simp
    then show "d v' = v0 \<or> d v' \<in> fst ` set cs"
      using \<open>fst (cs ! k) \<in> fst ` set cs\<close> by simp
  qed
  have b: "sint v0 \<le> sint (d v')"
    using lo up by simp
  have c: "(snd c = Returned \<longrightarrow> sint (fst c) \<le> sint (d v'))
      \<and> (\<forall>x. snd c = AtCompare x \<longrightarrow> sint x \<le> sint (d v'))" if "c \<in> set (cs[k := c'])" for c
  proof (cases "c = c'")
    case True
    then show ?thesis
      using ret' cur' by blast
  next
    case False
    with that set_update_subset_insert [of cs k c'] have "c \<in> set cs"
      by auto
    with all have "(snd c = Returned \<longrightarrow> sint (fst c) \<le> sint (d v))
      \<and> (\<forall>x. snd c = AtCompare x \<longrightarrow> sint x \<le> sint (d v))"
      by blast
    with up show ?thesis
      by (meson order_trans)
  qed
  from a b c show ?thesis
    unfolding set_inv_def by simp
qed

lemma set_inv_step:
  assumes inv: "set_inv v0 (v, cs)" and k: "k < length cs"
  shows "set_inv v0 (fst (Set_step v (cs ! k)), cs[k := snd (Set_step v (cs ! k))])"
proof (cases "cs ! k" v rule: Set_step_cases)
  case (load nxt)
  show ?thesis
    unfolding load(2) fst_conv snd_conv
    by (rule set_inv_update [OF inv k]) (simp_all add: load(1))
next
  case (swap nxt)
  have "sint (d v) \<le> sint nxt"
    using swap(2) by (simp add: word_sless_alt)
  then show ?thesis
    unfolding swap(3) fst_conv snd_conv
    by (intro set_inv_update [OF inv k]) (simp_all add: swap(1))
next
  case (retry nxt x)
  show ?thesis
    unfolding retry(4) fst_conv snd_conv
    by (rule set_inv_update [OF inv k]) (simp_all add: retry(1))
next
  case (keep nxt x)
  have "cs ! k \<in> set cs"
    using k by simp
  with inv keep(1) have "sint x \<le> sint (d v)"
    unfolding set_inv_def by force
  moreover have "sint nxt \<le> sint x"
    using keep(2) by (simp add: word_sless_alt)
  ultimately have "sint nxt \<le> sint (d v)"
    by simp
  then show ?thesis
    unfolding keep(3) fst_conv snd_conv
    by (intro set_inv_update [OF inv k]) (simp_all add: keep(1))
next
  case (returned nxt)
  have "cs[k := cs ! k] = cs"
    by (rule list_update_id)
  then have "cs[k := snd (Set_step v (cs ! k))] = cs" and "fst (Set_step v (cs ! k)) = v"
    unfolding returned(2) by simp_all
  then show ?thesis
    using inv by simp
qed

lemma run_schedule_inv: "set_inv v0 s \<Longrightarrow> set_inv v0 (run_schedule ks s)"
proof (induction ks arbitrary: s)
  case Nil
  then show ?case by simp
next
  case (Cons k ks)
  obtain v cs where s: "s = (v, cs)"
    by (cases s)
  show ?case
    using Cons.prems Cons.IH set_inv_step [of v0 v cs k] by (simp add: s)
qed

lemma run_schedule_values: "map fst (snd (run_schedule ks (v, cs))) = map fst cs"
proof (induction ks arbitrary: v cs)
  case Nil
  then show ?case by simp
next
  case (Cons k ks)
  then show ?case
    by (simp add: map_fst_update Set_step_value)
qed

lemma run_schedule_mono: "sint (d v) \<le> sint (d (fst (run_schedule ks (v, cs))))"
proof (induction ks arbitrary: v cs)
  case Nil
  then show ?case by simp
next
  case (Cons k ks)
  show ?case
  proof (cases "k < length cs")
    case True
    have "sint (d v) \<le> sint (d (fst (Set_step v (cs ! k))))"
      by (rule Set_step_mono)
    also have "\<dots> \<le> sint (d (fst (run_schedule ks (fst (Set_step v (cs ! k)), cs[k := snd (Set_step v (cs ! k))]))))"
      by (rule Cons.IH)
    finally show ?thesis
      using True by simp
  next
    case False
    then show ?thesis
      using Cons.IH by simp
  qed
qed

text \<open>
  Under any interleaving of the steps of concurrent calls \<^verbatim>\<open>Set(v1), ..., Set(vn)\<close> the stored
  value never decreases, and once all the calls have returned it is the maximum of the
  value before the calls and the \<^verbatim>\<open>int64(vi)\<close>.
\<close>

theorem Set_interleaved_max:
  "sint (d v) \<le> sint (d (fst (run_schedule ks (v, callers f xs))))
   \<and> ((\<forall>c \<in> set (snd (run_schedule ks (v, callers f xs))). snd c = Returned) \<longrightarrow>
        sint (d (fst (run_schedule ks (v, callers f xs))))
          = Max (insert (sint (d v)) ((\<lambda>x. sint (f x)) ` set xs)))"
proof (intro conjI impI)
  show "sint (d v) \<le> sint (d (fst (run_schedule ks (v, callers f xs))))"
    by (rule run_schedule_mono)
next
  let ?s = "run_schedule ks (v, callers f xs)"
  assume all: "\<forall>c \<in> set (snd ?s). snd c = Returned"
  have "set_inv (d v) (v, callers f xs)"
    by (simp add: set_inv_def callers_def)
  then have inv: "set_inv (d v) ?s"
    by (rule run_schedule_inv)
  have vals: "map fst (snd ?s) = map f xs"
    unfolding run_schedule_values by (simp add: callers_def comp_def)
  obtain v' cs' where s: "?s = (v', cs')"
    by (cases ?s)
  have mem: "sint (d v') \<in> insert (sint (d v)) ((\<lambda>x. sint (f x)) ` set xs)"
  proof -
    from inv have "d v' = d v \<or> d v' \<in> fst ` set cs'"
      by (simp add: s set_inv_def)
    moreover have "fst ` set cs' = f ` set xs"
      using vals by (metis s set_map snd_conv)
    ultimately show ?thesis by auto
  qed
  have ub: "y \<le> sint (d v')" if "y \<in> insert (sint (d v)) ((\<lambda>x. sint (f x)) ` set xs)" for y
  proof (cases "y = sint (d v)")
    case True
    then show ?thesis
      using inv by (simp add: s set_inv_def)
  next
    case False
    with that obtain x where x: "x \<in> set xs" and y: "y = sint (f x)"
      by auto
    have "fst ` set cs' = f ` set xs"
      using vals by (metis s set_map snd_conv)
    with x obtain c where c: "c \<in> set cs'" and fc: "fst c = f x"
      by (metis imageE imageI)
    have "snd c = Returned"
      using all c by (simp add: s)
    then show ?thesis
      using inv c fc y by (auto simp: s set_inv_def)
  qed
  have "Max (insert (sint (d v)) ((\<lambda>x. sint (f x)) ` set xs)) = sint (d v')"
    using mem ub by (intro Max_eqI) auto
  then show "sint (d (fst ?s)) = Max (insert (sint (d v)) ((\<lambda>x. sint (f x)) ` set xs))"
    by (simp add: s)
qed


subsection \<open>Every call returns\<close>

lemma sum_list_update_add:
  fixes y :: nat
  shows "k < length xs \<Longrightarrow> sum_list (xs[k := y]) + xs ! k = sum_list xs + y"
  by (induction xs arbitrary: k) (auto split: nat.splits)

lemma sum_list_map_le_add2:
  fixes h h' :: "'a \<Rightarrow> nat"
  assumes "\<And>c. c \<in> set cs \<Longrightarrow> h' c \<le> h c + 2"
  shows "sum_list (map h' cs) \<le> sum_list (map h cs) + 2 * length cs"
  using assms
proof (induction cs)
  case Nil
  then show ?case by simp
next
  case (Cons c cs)
  have "h' c \<le> h c + 2"
    using Cons.prems by simp
  moreover have "sum_list (map h' cs) \<le> sum_list (map h cs) + 2 * length cs"
    using Cons.IH Cons.prems by simp
  ultimately show ?case by simp
qed

lemma pending_le: "pending v' c \<le> Suc (Suc (pending v c))"
  by (simp add: pending_def split: pc.splits)

lemma potential_step:
  assumes k: "k < length cs" and live: "snd (cs ! k) \<noteq> Returned"
  shows "potential (fst (Set_step v (cs ! k)), cs[k := snd (Set_step v (cs ! k))]) < potential (v, cs)"
proof -
  define K where "K = 2 * length cs + 1"
  define g where "g = (\<lambda>u c. pending u c + K * alive c)"
  have P: "potential (u, cs[k := c']) + g u (cs ! k) = sum_list (map (g u) cs) + g u c'" for u c'
  proof -
    have "sum_list ((map (g u) cs)[k := g u c']) + map (g u) cs ! k = sum_list (map (g u) cs) + g u c'"
      using k by (intro sum_list_update_add) simp
    then show ?thesis
      using k by (simp add: potential_def g_def K_def map_update)
  qed
  have P0: "potential (u, cs) = sum_list (map (g u) cs)" for u
    by (simp add: potential_def g_def K_def)
  show ?thesis
  proof (cases "cs ! k" v rule: Set_step_cases)
    case (load nxt)
    have "g v (cs ! k) = Suc (g v (nxt, AtCompare (d v)))"
      by (simp add: g_def load(1) pending_def alive_def)
    with P [of v "(nxt, AtCompare (d v))"] show ?thesis
      unfolding load(2) fst_conv snd_conv P0 by simp
  next
    case (swap nxt)
    have ne: "d v \<noteq> nxt"
      using swap(2) by auto
    have old: "g (v\<lparr>d := nxt\<rparr>) (cs ! k) = 2 * length cs + 3"
      using ne by (simp add: g_def K_def swap(1) pending_def alive_def)
    have new: "g (v\<lparr>d := nxt\<rparr>) (nxt, Returned) = 0"
      by (simp add: g_def pending_def alive_def)
    have "sum_list (map (g (v\<lparr>d := nxt\<rparr>)) cs) \<le> sum_list (map (g v) cs) + 2 * length cs"
      by (rule sum_list_map_le_add2) (simp add: g_def pending_le)
    with P [of "v\<lparr>d := nxt\<rparr>" "(nxt, Returned)"] old new show ?thesis
      unfolding swap(3) fst_conv snd_conv P0 by simp
  next
    case (retry nxt x)
    have "g v (cs ! k) = Suc (g v (nxt, AtLoad))"
      using retry(3) by (simp add: g_def retry(1) pending_def alive_def)
    with P [of v "(nxt, AtLoad)"] show ?thesis
      unfolding retry(4) fst_conv snd_conv P0 by simp
  next
    case (keep nxt x)
    have "g v (nxt, Returned) = 0" and "0 < g v (cs ! k)"
      by (simp_all add: g_def K_def keep(1) pending_def alive_def)
    with P [of v "(nxt, Returned)"] show ?thesis
      unfolding keep(3) fst_conv snd_conv P0 by simp
  next
    case (returned nxt)
    with live show ?thesis by simp
  qed
qed

lemma Set_step_Returned: "snd c = Returned \<Longrightarrow> Set_step v c = (v, c)"
  by (cases c) (simp add: Set_step_def)

lemma work_potential: "work ks s + potential (run_schedule ks s) \<le> potential s"
proof (induction ks arbitrary: s)
  case Nil
  then show ?case by simp
next
  case (Cons k ks)
  obtain v cs where s: "s = (v, cs)"
    by (cases s)
  show ?case
  proof (cases "k < length cs")
    case False
    then show ?thesis
      using Cons.IH [of "(v, cs)"] by (simp add: s)
  next
    case True
    let ?s' = "(fst (Set_step v (cs ! k)), cs[k := snd (Set_step v (cs ! k))])"
    have ih: "work ks ?s' + potential (run_schedule ks ?s') \<le> potential ?s'"
      by (rule Cons.IH)
    show ?thesis
    proof (cases "snd (cs ! k) = Returned")
      case True
      then have "?s' = (v, cs)"
        by (simp add: Set_step_Returned)
      with ih True \<open>k < length cs\<close> show ?thesis
        by (simp add: s alive_def)
    next
      case False
      with potential_step [OF \<open>k < length cs\<close>] have "potential ?s' < potential (v, cs)"
        by simp
      with ih False \<open>k < length cs\<close> show ?thesis
        by (simp add: s alive_def)
    qed
  qed
qed

lemma potential_callers: "potential (v, callers f xs) = length xs * (2 * length xs + 2)"
proof -
  have "map (\<lambda>c. pending v c + (2 * length xs + 1) * alive c) (callers f xs)
      = replicate (length xs) (2 * length xs + 2)"
    by (simp add: callers_def pending_def alive_def comp_def map_replicate_const)
  then show ?thesis
    by (simp add: potential_def callers_def sum_list_replicate)
qed

lemma run_schedule_length: "length (snd (run_schedule ks (v, cs))) = length cs"
  by (induction ks arbitrary: v cs) simp_all

lemma run_schedule_Returned:
  assumes "k < length cs" and "snd (cs ! k) = Returned"
  shows "snd (snd (run_schedule ks (v, cs)) ! k) = Returned"
  using assms
proof (induction ks arbitrary: v cs)
  case Nil
  then show ?case by simp
next
  case (Cons j ks)
  show ?case
  proof (cases "j < length cs")
    case False
    then show ?thesis
      using Cons by simp
  next
    case True
    let ?cs' = "cs[j := snd (Set_step v (cs ! j))]"
    have "snd (?cs' ! k) = Returned"
    proof (cases "j = k")
      case True
      then show ?thesis
        using Cons.prems by (simp add: Set_step_Returned)
    next
      case False
      then show ?thesis
        using Cons.prems by simp
    qed
    moreover have "k < length ?cs'"
      using Cons.prems by simp
    ultimately have "snd (snd (run_schedule ks (fst (Set_step v (cs ! j)), ?cs')) ! k) = Returned"
      by (rule Cons.IH [rotated])
    then show ?thesis
      using True by simp
  qed
qed

lemma count_le_work:
  assumes "k < length cs" and "snd (snd (run_schedule ks (v, cs)) ! k) \<noteq> Returned"
  shows "count_list ks k \<le> work ks (v, cs)"
  using assms
proof (induction ks arbitrary: v cs)
  case Nil
  then show ?case by simp
next
  case (Cons j ks)
  show ?case
  proof (cases "j < length cs")
    case False
    with Cons.prems have "j \<noteq> k"
      by auto
    then show ?thesis
      using False Cons by simp
  next
    case True
    let ?v' = "fst (Set_step v (cs ! j))"
    let ?cs' = "cs[j := snd (Set_step v (cs ! j))]"
    have len: "k < length ?cs'"
      using Cons.prems by simp
    have nr: "snd (snd (run_schedule ks (?v', ?cs')) ! k) \<noteq> Returned"
      using Cons.prems True by simp
    have ih: "count_list ks k \<le> work ks (?v', ?cs')"
      using len nr by (rule Cons.IH)
    show ?thesis
    proof (cases "j = k")
      case False
      then show ?thesis
        using ih True by simp
    next
      case True
      have "snd (cs ! k) \<noteq> Returned"
        using run_schedule_Returned [OF Cons.prems(1), of "j # ks" v] Cons.prems(2) by blast
      then show ?thesis
        using ih True \<open>j < length cs\<close> by (simp add: alive_def)
    qed
  qed
qed

text \<open>
  Whatever the other callers do, a call of \<^verbatim>\<open>Set\<close> among \<open>n\<close> concurrent calls has returned
  once it has been given more than \<open>n * (2 * n + 2)\<close> steps: the loop cannot retry for ever.
\<close>

theorem Set_interleaved_returns:
  assumes "k < length xs" and "length xs * (2 * length xs + 2) < count_list ks k"
  shows "snd (snd (run_schedule ks (v, callers f xs)) ! k) = Returned"
proof (rule ccontr)
  assume nr: "snd (snd (run_schedule ks (v, callers f xs)) ! k) \<noteq> Returned"
  have "k < length (callers f xs)"
    using assms(1) by (simp add: callers_def)
  then have "count_list ks k \<le> work ks (v, callers f xs)"
    using nr by (rule count_le_work)
  also have "\<dots> \<le> potential (v, callers f xs)"
    using work_potential [of ks "(v, callers f xs)"] by simp
  also have "\<dots> = length xs * (2 * length xs + 2)"
    by (rule potential_callers)
  finally have "count_list ks k \<le> length xs * (2 * length xs + 2)" .
  with assms(2) show False
    by linarith
qed

text \<open>
  Two concurrent calls: both load 0, the first swaps 5 in, the swap of the second fails, and
  its second round stores 9.
\<close>

lemma Set_interleaved_example:
  "run_schedule [0, 1, 0, 1, 1, 1] (MaxDuration_zero, callers (word_of_int :: int \<Rightarrow> int64) [5, 9])
     = (\<lparr>d = 9\<rparr>, [(5, Returned), (9, Returned)])"
  by (simp add: callers_def MaxDuration_zero_def Set_step_def CompareAndSwapInt64_def
      MaxDuration_Int_def word_sless_alt)

text \<open>
  A caller that runs alone returns after its load and one comparison, and leaves what the
  method leaves for one caller at a time.
\<close>

lemma Set_alone:
  "run_schedule [0, 0] (v, callers f [x]) = (MaxDuration_Set f x v, [(f x, Returned)])"
  by (simp add: callers_def Set_step_def CompareAndSwapInt64_def MaxDuration_Int_def
      MaxDuration_Set_once)

section \<open>The collected count of a node\<close>

lemma fold_add_sum_list:
  fixes a :: "'a :: comm_monoid_add"
  shows "fold (\<lambda>i count. count + g i) xs a = a + sum_list (map g xs)"
  by (induction xs arbitrary: a) (simp_all add: add.assoc)

lemma sint_sum_list_nonneg:
  fixes xs :: "int64 list"
  assumes "\<forall>x \<in> set xs. 0 \<le> sint x" and "sum_list (map sint xs) < 2 ^ 63"
  shows "sint (sum_list xs) = sum_list (map sint xs)"
  using assms
proof (induction xs)
  case Nil
  then show ?case by simp
next
  case (Cons x xs)
  have nonneg: "0 \<le> sum_list (map sint xs)"
    using Cons.prems(1) by (intro sum_list_nonneg) auto
  have x0: "0 \<le> sint x"
    using Cons.prems(1) by simp
  have small: "sum_list (map sint xs) < 2 ^ 63"
    using Cons.prems(2) x0 by simp
  have ih: "sint (sum_list xs) = sum_list (map sint xs)"
    using Cons.IH Cons.prems(1) small by simp
  have "sint (x + sum_list xs) = signed_take_bit 63 (sint x + sint (sum_list xs))"
    by (simp add: sint_word_ariths)
  also have "\<dots> = sint x + sum_list (map sint xs)"
    unfolding ih using x0 nonneg Cons.prems(2)
    by (intro signed_take_bit_int_eq_self) simp_all
  finally show ?case by simp
qed

text \<open>
  C10. \<^verbatim>\<open>collectedCount()\<close> is the sum of the emitted counts of the node's input conduits,
  taken in \<^verbatim>\<open>int64\<close> arithmetic, and 0 for a node without input conduits. When the counts are
  not negative and their sum as integers is below \<open>2^63\<close>, the result read as a signed
  number is that integer sum.
\<close>

theorem collectedCount_sum:
  "collectedCount r w = sum_list (map (\<lambda>i. Edge_emittedCount (edges w i)) (ins (nodes w r)))
   \<and> (ins (nodes w r) = [] \<longrightarrow> collectedCount r w = 0)
   \<and> ((\<forall>i \<in> set (ins (nodes w r)). 0 \<le> sint (Edge_emittedCount (edges w i)))
        \<and> sum_list (map (\<lambda>i. sint (Edge_emittedCount (edges w i))) (ins (nodes w r))) < 2 ^ 63
      \<longrightarrow> sint (collectedCount r w)
            = sum_list (map (\<lambda>i. sint (Edge_emittedCount (edges w i))) (ins (nodes w r))))"
proof -
  let ?xs = "map (\<lambda>i. Edge_emittedCount (edges w i)) (ins (nodes w r))"
  have eq: "collectedCount r w = sum_list ?xs"
    by (simp add: collectedCount_def fold_add_sum_list)
  have empty: "ins (nodes w r) = [] \<longrightarrow> collectedCount r w = 0"
    by (simp add: collectedCount_def)
  have m: "map sint ?xs = map (\<lambda>i. sint (Edge_emittedCount (edges w i))) (ins (nodes w r))"
    by simp
  have exact: "(\<forall>i \<in> set (ins (nodes w r)). 0 \<le> sint (Edge_emittedCount (edges w i)))
        \<and> sum_list (map (\<lambda>i. sint (Edge_emittedCount (edges w i))) (ins (nodes w r))) < 2 ^ 63
      \<longrightarrow> sint (collectedCount r w)
            = sum_list (map (\<lambda>i. sint (Edge_emittedCount (edges w i))) (ins (nodes w r)))"
  proof (intro impI, elim conjE)
    assume a: "\<forall>i \<in> set (ins (nodes w r)). 0 \<le> sint (Edge_emittedCount (edges w i))"
      and b: "sum_list (map (\<lambda>i. sint (Edge_emittedCount (edges w i))) (ins (nodes w r))) < 2 ^ 63"
    have a': "\<forall>x \<in> set ?xs. 0 \<le> sint x"
      using a by auto
    have b': "sum_list (map sint ?xs) < 2 ^ 63"
      using b unfolding m .
    have "sint (sum_list ?xs) = sum_list (map sint ?xs)"
      using a' b' by (rule sint_sum_list_nonneg)
    then show "sint (collectedCount r w)
            = sum_list (map (\<lambda>i. sint (Edge_emittedCount (edges w i))) (ins (nodes w r)))"
      unfolding eq m .
  qed
  from eq empty exact show ?thesis by blast
qed

theorem collectedCount_sum_witness:
  "collectedCount 0 fan_in_world = 7
   \<and> sum_list (map (\<lambda>i. Edge_emittedCount (edges fan_in_world i)) (ins (nodes fan_in_world 0))) = 7
   \<and> ins (nodes fan_in_world 1) = [] \<and> collectedCount 1 fan_in_world = 0
   \<and> sint (collectedCount 0 fan_in_world) = 7"
proof -
  have i0: "ins (nodes fan_in_world 0) = [0, 1]"
    by (simp add: fan_in_world_def two_nodes_def new_node_def)
  have i1: "ins (nodes fan_in_world 1) = []"
    by (simp add: fan_in_world_def two_nodes_def new_node_def)
  have e0: "Edge_emittedCount (edges fan_in_world 0) = 3"
    by (simp add: fan_in_world_def two_nodes_def new_edge_def Edge_emittedCount_def)
  have e1: "Edge_emittedCount (edges fan_in_world (Suc 0)) = 4"
    by (simp add: fan_in_world_def two_nodes_def new_edge_def Edge_emittedCount_def)
  note t0 = collectedCount_sum [of 0 fan_in_world]
  note t1 = collectedCount_sum [of 1 fan_in_world]
  have s: "sum_list (map (\<lambda>i. Edge_emittedCount (edges fan_in_world i)) (ins (nodes fan_in_world 0))) = 7"
    by (simp add: i0 e0 e1)
  have c0: "collectedCount 0 fan_in_world = 7"
    using t0 s by simp
  have c1: "collectedCount 1 fan_in_world = 0"
    using t1 i1 by simp
  have c2: "sint (collectedCount 0 fan_in_world) = 7"
    using t0 by (simp add: i0 e0 e1)
  from s c0 i1 c1 c2 show ?thesis by simp
qed

section \<open>The exit of the run routine\<close>

lemma fold_emit_events:
  "fold (\<lambda>a. emit (f a)) xs w = w\<lparr>events := events w @ map f xs\<rparr>"
  by (induction xs arbitrary: w) (simp_all add: emit_def)

lemma closeChildEdges_events:
  "closeChildEdges r w = w\<lparr>events := events w @ map Close (outs (nodes w r))\<rparr>"
proof -
  have eq: "Edge_Close = (\<lambda>a. emit (Close a))"
    by (simp add: fun_eq_iff Edge_Close_def)
  show ?thesis
    unfolding closeChildEdges_def eq by (rule fold_emit_events)
qed

lemma abortParentEdges_events:
  "abortParentEdges r w = w\<lparr>events := events w @ map Abort (ins (nodes w r))\<rparr>"
proof -
  have eq: "Edge_Abort = (\<lambda>a. emit (Abort a))"
    by (simp add: fun_eq_iff Edge_Abort_def)
  show ?thesis
    unfolding abortParentEdges_def eq by (rule fold_emit_events)
qed

lemma start_deferred_nil:
  assumes "errCh (nodes w r) = []"
  shows "start_deferred r None p stack w =
     ((case p of None \<Rightarrow> Exited | Some v \<Rightarrow> Crashed v),
      w\<lparr>nodes := (nodes w)(r := (nodes w r)\<lparr>errCh := [None]\<rparr>),
        events := events w @ map Close (outs (nodes w r)) @ [Send r None]\<rparr>)"
  using assms
  by (simp add: start_deferred_def closeChildEdges_events errCh_send_def update_node_def
      emit_def split: option.splits)

lemma start_deferred_error:
  assumes "errCh (nodes w r) = []"
  shows "start_deferred r (Some e) None stack w =
     (Exited,
      w\<lparr>nodes := (nodes w)(r := (nodes w r)\<lparr>errCh := [Some e]\<rparr>),
        events := events w @ map Close (outs (nodes w r)) @ map Abort (ins (nodes w r))
                    @ [Println (Some e), Send r (Some e)]\<rparr>)"
  using assms
  by (simp add: start_deferred_def closeChildEdges_events abortParentEdges_events
      errCh_send_def update_node_def emit_def)

lemma count_list_map_inj:
  assumes "inj f"
  shows "count_list (map f xs) (f a) = count_list xs a"
  using assms by (induction xs) (auto simp: inj_def)

lemma count_list_distinct:
  "distinct xs \<Longrightarrow> a \<in> set xs \<Longrightarrow> count_list xs a = 1"
  by (induction xs) (auto simp: count_list_0_iff)

lemma start_makes_channel: "errCh (nodes (start env r w) r) = []"
  by (simp add: start_def Let_def update_node_def split: prod.splits)

lemma filter_is_Send_map:
  "filter is_Send (map Close xs) = []" "filter is_Send (map Abort xs) = []"
  by (induction xs) simp_all

lemma count_list_Close_map_Abort: "count_list (map Abort xs) (Close a) = 0"
  by (induction xs) simp_all

lemma start_go_new_events:
  assumes "errCh (nodes w r) = []"
  shows "drop (length (events w)) (events (snd (start_go stack r snapshot w))) =
     (case fst (runF (nodes w r) snapshot (ext w)) of
        Returns None \<Rightarrow> map Close (outs (nodes w r)) @ [Send r None]
      | Returns (Some e) \<Rightarrow>
          map Close (outs (nodes w r)) @ map Abort (ins (nodes w r)) @ [Println (Some e), Send r (Some e)]
      | Panics v \<Rightarrow> map Close (outs (nodes w r)) @ [Send r None]
      | NeverReturns \<Rightarrow> [])"
proof (cases "runF (nodes w r) snapshot (ext w)")
  case (Pair oc x)
  show ?thesis
  proof (cases oc)
    case (Returns eo)
    then show ?thesis
      using Pair assms
      by (cases eo) (simp_all add: start_go_def start_deferred_nil start_deferred_error)
  next
    case (Panics v)
    then show ?thesis
      using Pair assms by (simp add: start_go_def start_deferred_nil)
  next
    case NeverReturns
    then show ?thesis
      using Pair by (simp add: start_go_def)
  qed
qed

text \<open>
  C4. When the run routine of a started node exits, the goroutine does, in this order and
  nothing else: it closes every output conduit, in the order of \<^verbatim>\<open>n.outs\<close>; if the routine
  returned an error, it aborts every input conduit and logs the error; it sends one value,
  the error or nil, to the completion channel, which then holds exactly that value. When
  the routine returned nil or panicked, no input conduit is aborted and nothing is logged.
  Among the actions of the exit there is exactly one send, and every conduit is closed as
  often as it occurs in \<^verbatim>\<open>n.outs\<close>: exactly once when the output conduits are pairwise
  distinct.
\<close>

theorem start_go_cleanup_order:
  assumes "errCh (nodes w r) = []"
  shows
    "(runF (nodes w r) snapshot (ext w) = (Returns None, x) \<longrightarrow>
        start_go stack r snapshot w =
          (Exited,
           w\<lparr>ext := x, nodes := (nodes w)(r := (nodes w r)\<lparr>errCh := [None]\<rparr>),
             events := events w @ map Close (outs (nodes w r)) @ [Send r None]\<rparr>))
     \<and> (runF (nodes w r) snapshot (ext w) = (Returns (Some e), x) \<longrightarrow>
        start_go stack r snapshot w =
          (Exited,
           w\<lparr>ext := x, nodes := (nodes w)(r := (nodes w r)\<lparr>errCh := [Some e]\<rparr>),
             events := events w @ map Close (outs (nodes w r)) @ map Abort (ins (nodes w r))
                         @ [Println (Some e), Send r (Some e)]\<rparr>))
     \<and> (runF (nodes w r) snapshot (ext w) = (Panics v, x) \<longrightarrow>
        start_go stack r snapshot w =
          (Crashed v,
           w\<lparr>ext := x, nodes := (nodes w)(r := (nodes w r)\<lparr>errCh := [None]\<rparr>),
             events := events w @ map Close (outs (nodes w r)) @ [Send r None]\<rparr>))
     \<and> (fst (runF (nodes w r) snapshot (ext w)) \<noteq> NeverReturns \<longrightarrow>
          length (filter is_Send
                    (drop (length (events w)) (events (snd (start_go stack r snapshot w))))) = 1
          \<and> (\<forall>a. count_list (drop (length (events w)) (events (snd (start_go stack r snapshot w))))
                     (Close a)
                   = count_list (outs (nodes w r)) a)
          \<and> (distinct (outs (nodes w r)) \<longrightarrow>
               (\<forall>a \<in> set (outs (nodes w r)).
                  count_list (drop (length (events w)) (events (snd (start_go stack r snapshot w))))
                    (Close a) = 1)))"
proof -
  have ok: "runF (nodes w r) snapshot (ext w) = (Returns None, x) \<longrightarrow>
        start_go stack r snapshot w =
          (Exited,
           w\<lparr>ext := x, nodes := (nodes w)(r := (nodes w r)\<lparr>errCh := [None]\<rparr>),
             events := events w @ map Close (outs (nodes w r)) @ [Send r None]\<rparr>)"
    using assms by (simp add: start_go_def start_deferred_nil)
  have failed: "runF (nodes w r) snapshot (ext w) = (Returns (Some e), x) \<longrightarrow>
        start_go stack r snapshot w =
          (Exited,
           w\<lparr>ext := x, nodes := (nodes w)(r := (nodes w r)\<lparr>errCh := [Some e]\<rparr>),
             events := events w @ map Close (outs (nodes w r)) @ map Abort (ins (nodes w r))
                         @ [Println (Some e), Send r (Some e)]\<rparr>)"
    using assms by (simp add: start_go_def start_deferred_error)
  have panicked: "runF (nodes w r) snapshot (ext w) = (Panics v, x) \<longrightarrow>
        start_go stack r snapshot w =
          (Crashed v,
           w\<lparr>ext := x, nodes := (nodes w)(r := (nodes w r)\<lparr>errCh := [None]\<rparr>),
             events := events w @ map Close (outs (nodes w r)) @ [Send r None]\<rparr>)"
    using assms by (simp add: start_go_def start_deferred_nil)
  let ?new = "drop (length (events w)) (events (snd (start_go stack r snapshot w)))"
  have counts: "fst (runF (nodes w r) snapshot (ext w)) \<noteq> NeverReturns \<longrightarrow>
      length (filter is_Send ?new) = 1
      \<and> (\<forall>a. count_list ?new (Close a) = count_list (outs (nodes w r)) a)"
    unfolding start_go_new_events [OF assms]
    by (simp add: filter_is_Send_map count_list_map_inj inj_def count_list_Close_map_Abort
        split: outcome.splits option.splits)
  have once: "fst (runF (nodes w r) snapshot (ext w)) \<noteq> NeverReturns \<longrightarrow>
      distinct (outs (nodes w r)) \<longrightarrow>
      (\<forall>a \<in> set (outs (nodes w r)). count_list ?new (Close a) = 1)"
    using counts by (simp add: count_list_distinct)
  from ok failed panicked counts once show ?thesis by blast
qed

theorem start_go_cleanup_order_witness:
  "errCh (nodes (run_world (Returns None)) 0) = []
   \<and> start_go [] 0 [] (run_world (Returns None)) =
       (Exited, (run_world (Returns None))
          \<lparr>ext := 1,
           nodes := (nodes (run_world (Returns None)))
                      (0 := (nodes (run_world (Returns None)) 0)\<lparr>errCh := [None]\<rparr>),
           events := [Close 1, Close 2, Send 0 None]\<rparr>)
   \<and> fst (start_go [] 0 [] (run_world (Returns (Some (RunError ''lost input''))))) = Exited
   \<and> events (snd (start_go [] 0 [] (run_world (Returns (Some (RunError ''lost input'')))))) =
       [Close 1, Close 2, Abort 0, Println (Some (RunError ''lost input'')),
        Send 0 (Some (RunError ''lost input''))]
   \<and> errCh (nodes (snd (start_go [] 0 [] (run_world (Returns (Some (RunError ''lost input'')))))) 0) =
       [Some (RunError ''lost input'')]
   \<and> fst (start_go [] 0 [] (run_world (Panics ''boom''))) = Crashed ''boom''
   \<and> events (snd (start_go [] 0 [] (run_world (Panics ''boom'')))) = [Close 1, Close 2, Send 0 None]
   \<and> fst (runF (nodes (run_world (Panics ''boom'')) 0) [] (ext (run_world (Panics ''boom'')))) \<noteq> NeverReturns
   \<and> distinct (outs (nodes (run_world (Panics ''boom'')) 0))
   \<and> length (filter is_Send
         (drop (length (events (run_world (Panics ''boom''))))
            (events (snd (start_go [] 0 [] (run_world (Panics ''boom''))))))) = 1
   \<and> count_list (drop (length (events (run_world (Panics ''boom''))))
                    (events (snd (start_go [] 0 [] (run_world (Panics ''boom'')))))) (Close 1) = 1
   \<and> count_list (drop (length (events (run_world (Panics ''boom''))))
                    (events (snd (start_go [] 0 [] (run_world (Panics ''boom'')))))) (Close 2) = 1"
proof -
  have ch: "errCh (nodes (run_world oc) 0) = []" for oc
    by (simp add: run_world_def two_nodes_def new_node_def)
  have rf: "runF (nodes (run_world oc) 0) [] (ext (run_world oc)) = (oc, 1)" for oc
    by (simp add: run_world_def two_nodes_def new_node_def)
  have os: "outs (nodes (run_world oc) 0) = [1, 2]" for oc
    by (simp add: run_world_def two_nodes_def new_node_def)
  have ns: "ins (nodes (run_world oc) 0) = [0]" for oc
    by (simp add: run_world_def two_nodes_def new_node_def)
  have ev: "events (run_world oc) = []" for oc
    by (simp add: run_world_def two_nodes_def)
  note t1 = start_go_cleanup_order [OF ch, where oc1 = "Returns None" and snapshot = "[]" and x = 1 and stack = "[]"]
  note t2 = start_go_cleanup_order [OF ch, where oc1 = "Returns (Some (RunError ''lost input''))"
      and snapshot = "[]" and x = 1 and stack = "[]" and e = "RunError ''lost input''"]
  note t3 = start_go_cleanup_order [OF ch, where oc1 = "Panics ''boom''" and snapshot = "[]" and x = 1
      and stack = "[]" and v = "''boom''"]
  have a: "start_go [] 0 [] (run_world (Returns None)) =
       (Exited, (run_world (Returns None))
          \<lparr>ext := 1,
           nodes := (nodes (run_world (Returns None)))
                      (0 := (nodes (run_world (Returns None)) 0)\<lparr>errCh := [None]\<rparr>),
           events := [Close 1, Close 2, Send 0 None]\<rparr>)"
    using t1 by (simp add: rf os ev)
  have b: "start_go [] 0 [] (run_world (Returns (Some (RunError ''lost input'')))) =
       (Exited, (run_world (Returns (Some (RunError ''lost input''))))
          \<lparr>ext := 1,
           nodes := (nodes (run_world (Returns (Some (RunError ''lost input'')))))
                      (0 := (nodes (run_world (Returns (Some (RunError ''lost input'')))) 0)
                              \<lparr>errCh := [Some (RunError ''lost input'')]\<rparr>),
           events := [Close 1, Close 2, Abort 0, Println (Some (RunError ''lost input'')),
                      Send 0 (Some (RunError ''lost input''))]\<rparr>)"
    using t2 by (simp add: rf os ns ev)
  have c: "start_go [] 0 [] (run_world (Panics ''boom'')) =
       (Crashed ''boom'', (run_world (Panics ''boom''))
          \<lparr>ext := 1,
           nodes := (nodes (run_world (Panics ''boom'')))
                      (0 := (nodes (run_world (Panics ''boom'')) 0)\<lparr>errCh := [None]\<rparr>),
           events := [Close 1, Close 2, Send 0 None]\<rparr>)"
    using t3 by (simp add: rf os ev)
  have nr: "fst (runF (nodes (run_world (Panics ''boom'')) 0) [] (ext (run_world (Panics ''boom'')))) \<noteq> NeverReturns"
    by (simp add: rf)
  have di: "distinct (outs (nodes (run_world (Panics ''boom'')) 0))"
    by (simp add: os)
  have e: "length (filter is_Send
         (drop (length (events (run_world (Panics ''boom''))))
            (events (snd (start_go [] 0 [] (run_world (Panics ''boom''))))))) = 1
     \<and> count_list (drop (length (events (run_world (Panics ''boom''))))
                    (events (snd (start_go [] 0 [] (run_world (Panics ''boom'')))))) (Close 1) = 1
     \<and> count_list (drop (length (events (run_world (Panics ''boom''))))
                    (events (snd (start_go [] 0 [] (run_world (Panics ''boom'')))))) (Close 2) = 1"
    using t3 nr di by (simp add: os)
  show ?thesis
    using a e nr di by (simp add: ch b c)
qed

text \<open>
  C1. What the goroutine does when the run routine of a started node panics: the
  assignment to \<^verbatim>\<open>err\<close> never happens, so the deferred function finds \<^verbatim>\<open>err\<close> nil and skips
  the branch that holds \<^verbatim>\<open>recover()\<close>. It closes the output conduits and sends nil to the
  completion channel; no input conduit is aborted, nothing is logged, no error with a stack
  excerpt is built, and the panic, still in flight, ends the process. \<^verbatim>\<open>Err()\<close> on the node
  would return nil.
\<close>

theorem start_go_panic_unrecovered:
  assumes "errCh (nodes w r) = []" and "\<not> finished (nodes w r)"
    and "runF (nodes w r) snapshot (ext w) = (Panics v, x)"
  shows "fst (start_go stack r snapshot w) = Crashed v
     \<and> events (snd (start_go stack r snapshot w)) =
         events w @ map Close (outs (nodes w r)) @ [Send r None]
     \<and> errCh (nodes (snd (start_go stack r snapshot w)) r) = [None]
     \<and> map_option fst (Err r (snd (start_go stack r snapshot w))) = Some None"
  using assms
  by (simp add: start_go_def start_deferred_nil Err_def)

theorem start_go_panic_unrecovered_witness:
  "errCh (nodes (run_world (Panics ''boom'')) 0) = []
   \<and> \<not> finished (nodes (run_world (Panics ''boom'')) 0)
   \<and> runF (nodes (run_world (Panics ''boom'')) 0) [] (ext (run_world (Panics ''boom''))) = (Panics ''boom'', 1)
   \<and> fst (start_go ''goroutine 7 [running]'' 0 [] (run_world (Panics ''boom''))) = Crashed ''boom''
   \<and> events (snd (start_go ''goroutine 7 [running]'' 0 [] (run_world (Panics ''boom'')))) =
        [Close 1, Close 2, Send 0 None]
   \<and> errCh (nodes (snd (start_go ''goroutine 7 [running]'' 0 [] (run_world (Panics ''boom'')))) 0) = [None]
   \<and> map_option fst (Err 0 (snd (start_go ''goroutine 7 [running]'' 0 [] (run_world (Panics ''boom''))))) = Some None"
proof -
  have ch: "errCh (nodes (run_world (Panics ''boom'')) 0) = []"
    by (simp add: run_world_def two_nodes_def new_node_def)
  have nf: "\<not> finished (nodes (run_world (Panics ''boom'')) 0)"
    by (simp add: run_world_def two_nodes_def new_node_def)
  have rf: "runF (nodes (run_world (Panics ''boom'')) 0) [] (ext (run_world (Panics ''boom''))) = (Panics ''boom'', 1)"
    by (simp add: run_world_def two_nodes_def new_node_def)
  have os: "outs (nodes (run_world (Panics ''boom'')) 0) = [1, 2]"
    by (simp add: run_world_def two_nodes_def new_node_def)
  have ev: "events (run_world (Panics ''boom'')) = []"
    by (simp add: run_world_def two_nodes_def)
  from start_go_panic_unrecovered [OF ch nf rf, of "''goroutine 7 [running]''"]
  show ?thesis
    by (simp add: ch nf rf os ev)
qed

section \<open>Waiting for completion\<close>

lemma Err_cached: "finished (nodes w r) \<Longrightarrow> Err r w = Some (err (nodes w r), w)"
  by (simp add: Err_def)

lemma Err_calls_cached: "finished (nodes w r) \<Longrightarrow> Err_calls k r w = Some (replicate k (err (nodes w r)), w)"
  by (induction k) (simp_all add: Err_cached)

lemma Err_first:
  assumes "\<not> finished (nodes w r)" and "errCh (nodes w r) = v # rest"
  shows "Err r w = Some (v, update_node r (\<lambda>n. n\<lparr>finished := True, err := v, errCh := rest\<rparr>) w)"
  using assms by (simp add: Err_def)

text \<open>
  Calls one after the other, each with the mutex to itself. On a node whose goroutine has
  sent its value (the completion channel holds \<open>v\<close>) and on which \<^verbatim>\<open>Err()\<close> has not been
  called, any number \<open>N > 0\<close> of calls return \<open>v\<close> each; that one value is gone from the
  channel after the first call, \<open>v\<close> is cached in \<^verbatim>\<open>n.err\<close> with the flag \<^verbatim>\<open>finished\<close> set, and
  the number of calls changes nothing else. Once the flag is set, every call returns the
  cached value and leaves the world as it is.
\<close>

lemma Err_calls_sequential:
  "(\<not> finished (nodes w r) \<and> errCh (nodes w r) = v # rest \<longrightarrow>
      Err_calls (Suc k) r w =
        Some (replicate (Suc k) v,
              update_node r (\<lambda>n. n\<lparr>finished := True, err := v, errCh := rest\<rparr>) w))
   \<and> (finished (nodes w r) \<longrightarrow> Err_calls k r w = Some (replicate k (err (nodes w r)), w))"
proof (intro conjI impI)
  assume a: "\<not> finished (nodes w r) \<and> errCh (nodes w r) = v # rest"
  let ?w = "update_node r (\<lambda>n. n\<lparr>finished := True, err := v, errCh := rest\<rparr>) w"
  have first: "Err r w = Some (v, ?w)"
    using a by (simp add: Err_first)
  have fin: "finished (nodes ?w r)" and cache: "err (nodes ?w r) = v"
    by (simp_all add: update_node_def)
  have "Err_calls k r ?w = Some (replicate k v, ?w)"
    using Err_calls_cached [OF fin, of k] cache by simp
  with first show "Err_calls (Suc k) r w = Some (replicate (Suc k) v, ?w)"
    by simp
next
  assume "finished (nodes w r)"
  then show "Err_calls k r w = Some (replicate k (err (nodes w r)), w)"
    by (rule Err_calls_cached)
qed

subsection \<open>Any interleaving of overlapping callers\<close>

lemma Err_frame_simps:
  "Err_frame n0 (n\<lparr>finishedMu := m\<rparr>) = Err_frame n0 n"
  "Err_frame n0 (n\<lparr>finished := f\<rparr>) = Err_frame n0 n"
  "Err_frame n0 (n\<lparr>err := e\<rparr>) = Err_frame n0 n"
  "Err_frame n0 (n\<lparr>errCh := c\<rparr>) = Err_frame n0 n"
  by (simp_all add: Err_frame_def)

lemma stage_simps:
  "fresh n0 v rest (n\<lparr>finishedMu := m\<rparr>) = fresh n0 v rest n"
  "flagged n0 v rest (n\<lparr>finishedMu := m\<rparr>) = flagged n0 v rest n"
  "received n0 v rest (n\<lparr>finishedMu := m\<rparr>) = received n0 v rest n"
  "cached v rest (n\<lparr>finishedMu := m\<rparr>) = cached v rest n"
  by (simp_all add: fresh_def flagged_def received_def cached_def)

lemma pc_ok_mutex: "pc_ok n0 v rest (n\<lparr>finishedMu := m\<rparr>) c = pc_ok n0 v rest n c"
  by (cases c) (simp_all add: stage_simps)

lemma Err_inv_update:
  assumes inv: "Err_inv n0 v rest (n, cs)" and k: "k < length cs"
    and others: "\<And>i. i < length cs \<Longrightarrow> i \<noteq> k \<Longrightarrow> \<not> holds_mutex (cs ! i)"
    and fr': "Err_frame n0 n'"
    and okk': "pc_ok n0 v rest n' c'"
    and keep: "\<And>c. \<not> holds_mutex c \<Longrightarrow> pc_ok n0 v rest n c \<Longrightarrow> pc_ok n0 v rest n' c"
    and mu': "finishedMu n' \<longleftrightarrow> holds_mutex c'"
    and un': "\<not> finishedMu n' \<Longrightarrow> fresh n0 v rest n' \<or> cached v rest n'"
  shows "Err_inv n0 v rest (n', cs[k := c'])"
proof -
  from inv have ok: "\<And>i. i < length cs \<Longrightarrow> pc_ok n0 v rest n (cs ! i)"
    by (auto simp: Err_inv_def)
  have a: "\<forall>i<length (cs[k := c']). pc_ok n0 v rest n' (cs[k := c'] ! i)"
  proof (intro allI impI)
    fix i assume i: "i < length (cs[k := c'])"
    show "pc_ok n0 v rest n' (cs[k := c'] ! i)"
    proof (cases "i = k")
      case True
      then show ?thesis using k okk' by simp
    next
      case False
      then have "cs[k := c'] ! i = cs ! i" by simp
      moreover have "pc_ok n0 v rest n' (cs ! i)"
        using keep [OF others ok] i False by simp
      ultimately show ?thesis by simp
    qed
  qed
  have h: "\<And>i. i < length cs \<Longrightarrow> holds_mutex (cs[k := c'] ! i) \<longleftrightarrow> i = k \<and> holds_mutex c'"
  proof -
    fix i assume i: "i < length cs"
    show "holds_mutex (cs[k := c'] ! i) \<longleftrightarrow> i = k \<and> holds_mutex c'"
      using others [OF i] k by (cases "i = k") simp_all
  qed
  have b: "finishedMu n' \<longleftrightarrow> (\<exists>i<length (cs[k := c']). holds_mutex (cs[k := c'] ! i))"
    using mu' k h by auto
  have c: "\<forall>i<length (cs[k := c']). \<forall>j<length (cs[k := c']).
      holds_mutex (cs[k := c'] ! i) \<longrightarrow> holds_mutex (cs[k := c'] ! j) \<longrightarrow> i = j"
    using h by auto
  show ?thesis
    unfolding Err_inv_def using fr' a b c un' by simp
qed

lemma Err_inv_step:
  assumes inv: "Err_inv n0 v rest (n, cs)" and k: "k < length cs"
  shows "Err_inv n0 v rest (fst (Err_step n (cs ! k)), cs[k := snd (Err_step n (cs ! k))])"
proof -
  from inv have fr: "Err_frame n0 n"
    and ok: "\<And>i. i < length cs \<Longrightarrow> pc_ok n0 v rest n (cs ! i)"
    and mu: "finishedMu n \<longleftrightarrow> (\<exists>i<length cs. holds_mutex (cs ! i))"
    and ex: "\<And>i j. i < length cs \<Longrightarrow> j < length cs \<Longrightarrow> holds_mutex (cs ! i) \<Longrightarrow> holds_mutex (cs ! j) \<Longrightarrow> i = j"
    and un: "\<not> finishedMu n \<Longrightarrow> fresh n0 v rest n \<or> cached v rest n"
    by (auto simp: Err_inv_def)
  have okk: "pc_ok n0 v rest n (cs ! k)"
    using ok k by simp
  have same: "cs[k := cs ! k] = cs"
    by (rule list_update_id)
  have holder: "holds_mutex (cs ! k) \<Longrightarrow> finishedMu n \<and> (\<forall>i<length cs. i \<noteq> k \<longrightarrow> \<not> holds_mutex (cs ! i))"
    using mu ex k by blast
  show ?thesis
  proof (cases "cs ! k")
    case AtLock
    show ?thesis
    proof (cases "finishedMu n")
      case True
      then show ?thesis
        using inv same by (simp add: AtLock)
    next
      case False
      then have none: "\<And>i. i < length cs \<Longrightarrow> \<not> holds_mutex (cs ! i)"
        using mu by blast
      have "Err_inv n0 v rest (n\<lparr>finishedMu := True\<rparr>, cs[k := AtCheck])"
        using inv k
      proof (rule Err_inv_update)
        show "pc_ok n0 v rest (n\<lparr>finishedMu := True\<rparr>) AtCheck"
          using un [OF False] by (simp add: stage_simps)
      qed (simp_all add: none fr Err_frame_simps pc_ok_mutex)
      then show ?thesis
        using False by (simp add: AtLock)
    qed
  next
    case AtCheck
    then have h: "holds_mutex (cs ! k)" by simp
    note hd = holder [OF h]
    from okk have st: "fresh n0 v rest n \<or> cached v rest n"
      by (simp add: AtCheck)
    show ?thesis
    proof (cases "finished n")
      case False
      with st have f: "fresh n0 v rest n"
        by (auto simp: cached_def)
      have "Err_inv n0 v rest (n, cs[k := AtSetFinished])"
        using inv k by (rule Err_inv_update) (simp_all add: hd fr f)
      then show ?thesis
        using False by (simp add: AtCheck)
    next
      case True
      with st have c: "cached v rest n"
        by (auto simp: fresh_def)
      have "Err_inv n0 v rest (n, cs[k := AtReturn])"
        using inv k by (rule Err_inv_update) (simp_all add: hd fr c)
      then show ?thesis
        using True by (simp add: AtCheck)
    qed
  next
    case AtSetFinished
    then have h: "holds_mutex (cs ! k)" by simp
    note hd = holder [OF h]
    from okk have f: "fresh n0 v rest n"
      by (simp add: AtSetFinished)
    have "Err_inv n0 v rest (n\<lparr>finished := True\<rparr>, cs[k := AtReceive])"
      using inv k
    proof (rule Err_inv_update)
      show "\<And>c. \<not> holds_mutex c \<Longrightarrow> pc_ok n0 v rest n c \<Longrightarrow> pc_ok n0 v rest (n\<lparr>finished := True\<rparr>) c"
        subgoal for c using f by (cases c) (simp_all add: fresh_def cached_def)
        done
      show "pc_ok n0 v rest (n\<lparr>finished := True\<rparr>) AtReceive"
        using f by (simp add: fresh_def flagged_def)
    qed (simp_all add: hd fr Err_frame_simps)
    then show ?thesis
      by (simp add: AtSetFinished)
  next
    case AtReceive
    then have h: "holds_mutex (cs ! k)" by simp
    note hd = holder [OF h]
    from okk have f: "flagged n0 v rest n"
      by (simp add: AtReceive)
    then have ch: "errCh n = v # rest"
      by (simp add: flagged_def)
    have "Err_inv n0 v rest (n\<lparr>errCh := rest\<rparr>, cs[k := AtStore v])"
      using inv k
    proof (rule Err_inv_update)
      show "\<And>c. \<not> holds_mutex c \<Longrightarrow> pc_ok n0 v rest n c \<Longrightarrow> pc_ok n0 v rest (n\<lparr>errCh := rest\<rparr>) c"
        subgoal for c using f by (cases c) (simp_all add: flagged_def cached_def)
        done
      show "pc_ok n0 v rest (n\<lparr>errCh := rest\<rparr>) (AtStore v)"
        using f by (simp add: flagged_def received_def)
    qed (simp_all add: hd fr Err_frame_simps)
    then show ?thesis
      by (simp add: AtReceive ch)
  next
    case (AtStore x)
    then have h: "holds_mutex (cs ! k)" by simp
    note hd = holder [OF h]
    from okk have f: "received n0 v rest n" and x: "x = v"
      by (simp_all add: AtStore)
    have "Err_inv n0 v rest (n\<lparr>err := v\<rparr>, cs[k := AtReturn])"
      using inv k
    proof (rule Err_inv_update)
      show "\<And>c. \<not> holds_mutex c \<Longrightarrow> pc_ok n0 v rest n c \<Longrightarrow> pc_ok n0 v rest (n\<lparr>err := v\<rparr>) c"
        subgoal for c using f by (cases c) (simp_all add: received_def cached_def)
        done
      show "pc_ok n0 v rest (n\<lparr>err := v\<rparr>) AtReturn"
        using f by (simp add: received_def cached_def)
    qed (simp_all add: hd fr Err_frame_simps)
    then show ?thesis
      by (simp add: AtStore x)
  next
    case AtReturn
    then have h: "holds_mutex (cs ! k)" by simp
    note hd = holder [OF h]
    from okk have c: "cached v rest n"
      by (simp add: AtReturn)
    then have e: "err n = v"
      by (simp add: cached_def)
    have "Err_inv n0 v rest (n, cs[k := AtUnlock v])"
      using inv k by (rule Err_inv_update) (simp_all add: hd fr c)
    then show ?thesis
      by (simp add: AtReturn e)
  next
    case (AtUnlock e)
    then have h: "holds_mutex (cs ! k)" by simp
    note hd = holder [OF h]
    from okk have c: "cached v rest n" and e: "e = v"
      by (simp_all add: AtUnlock)
    have "Err_inv n0 v rest (n\<lparr>finishedMu := False\<rparr>, cs[k := ErrReturned v])"
      using inv k by (rule Err_inv_update) (simp_all add: hd fr c Err_frame_simps pc_ok_mutex stage_simps)
    then show ?thesis
      by (simp add: AtUnlock e)
  next
    case (ErrReturned e)
    then show ?thesis
      using inv same by simp
  qed
qed


lemma Err_run_inv: "Err_inv n0 v rest s \<Longrightarrow> Err_inv n0 v rest (Err_run ks s)"
proof (induction ks arbitrary: s)
  case Nil
  then show ?case by simp
next
  case (Cons k ks)
  obtain n cs where s: "s = (n, cs)"
    by (cases s)
  show ?case
  proof (cases "k < length cs")
    case True
    have "Err_inv n0 v rest (fst (Err_step n (cs ! k)), cs[k := snd (Err_step n (cs ! k))])"
      using Cons.prems True unfolding s by (rule Err_inv_step)
    then show ?thesis
      using True Cons.IH by (simp add: s)
  next
    case False
    then show ?thesis
      using Cons by (simp add: s)
  qed
qed

lemma Err_inv_init:
  assumes "\<not> finishedMu n0" and "\<not> finished n0" and "errCh n0 = v # rest"
  shows "Err_inv n0 v rest (n0, replicate N AtLock)"
  using assms by (simp add: Err_inv_def Err_frame_def fresh_def)

lemma Err_run_length: "length (snd (Err_run ks (n, cs))) = length cs"
  by (induction ks arbitrary: n cs) simp_all

lemma Err_run_append: "Err_run (ks @ ks') s = Err_run ks' (Err_run ks s)"
proof (induction ks arbitrary: s)
  case Nil
  then show ?case by simp
next
  case (Cons k ks)
  obtain n cs where s: "s = (n, cs)"
    by (cases s)
  show ?case
    using Cons.IH by (simp add: s)
qed

lemma remaining_step:
  "remaining (snd (Err_step n c)) + (if snd (Err_step n c) = c then 0 else 1) \<le> remaining c"
  by (cases c) (simp_all split: list.splits)

lemma sum_remaining_update:
  assumes "k < length cs" and "remaining c' + x \<le> remaining (cs ! k)"
  shows "sum_list (map remaining (cs[k := c'])) + x \<le> sum_list (map remaining cs)"
proof -
  have "sum_list (map remaining (cs[k := c'])) = sum_list (map remaining cs) + remaining c' - remaining (cs ! k)"
    using assms(1) by (simp add: map_update sum_list_update)
  moreover have "remaining (cs ! k) \<le> sum_list (map remaining cs)"
    using assms(1) by (simp add: member_le_sum_list)
  ultimately show ?thesis
    using assms(2) by simp
qed

lemma Err_work_potential:
  "Err_work ks (n, cs) + sum_list (map remaining (snd (Err_run ks (n, cs)))) \<le> sum_list (map remaining cs)"
proof (induction ks arbitrary: n cs)
  case Nil
  then show ?case by simp
next
  case (Cons k ks)
  show ?case
  proof (cases "k < length cs")
    case False
    then show ?thesis
      using Cons.IH [of n cs] by simp
  next
    case True
    let ?n' = "fst (Err_step n (cs ! k))" and ?c' = "snd (Err_step n (cs ! k))"
    let ?x = "if ?c' = cs ! k then 0 else (1::nat)"
    have "sum_list (map remaining (cs[k := ?c'])) + ?x \<le> sum_list (map remaining cs)"
      using True remaining_step [of n "cs ! k"] by (rule sum_remaining_update)
    moreover have "Err_work ks (?n', cs[k := ?c']) + sum_list (map remaining (snd (Err_run ks (?n', cs[k := ?c']))))
        \<le> sum_list (map remaining (cs[k := ?c']))"
      by (rule Cons.IH)
    ultimately show ?thesis
      using True by simp
  qed
qed

lemma Err_work_bound: "Err_work ks (n, replicate N AtLock) \<le> 7 * N"
proof -
  have "sum_list (map remaining (replicate N AtLock)) = 7 * N"
    by (induction N) simp_all
  then show ?thesis
    using Err_work_potential [of ks n "replicate N AtLock"] by simp
qed


lemma holder_steps:
  assumes "holds_mutex c" and "pc_ok n0 v rest n c"
  shows "snd (Err_step n c) \<noteq> c"
  using assms by (cases c) (simp_all add: flagged_def)

lemma Err_quiescent:
  assumes inv: "Err_inv n0 v rest (n, cs)"
    and stuck: "\<forall>k<length cs. snd (Err_step n (cs ! k)) = cs ! k"
  shows "cs = replicate (length cs) (ErrReturned v)"
proof -
  from inv have ok: "\<And>i. i < length cs \<Longrightarrow> pc_ok n0 v rest n (cs ! i)"
    and mu: "finishedMu n \<longleftrightarrow> (\<exists>i<length cs. holds_mutex (cs ! i))"
    by (auto simp: Err_inv_def)
  have nobody: "\<And>i. i < length cs \<Longrightarrow> \<not> holds_mutex (cs ! i)"
    using holder_steps ok stuck by blast
  then have free: "\<not> finishedMu n"
    using mu by blast
  have "\<And>i. i < length cs \<Longrightarrow> cs ! i = ErrReturned v"
  proof -
    fix i assume i: "i < length cs"
    show "cs ! i = ErrReturned v"
    proof (cases "cs ! i")
      case AtLock
      then have "snd (Err_step n (cs ! i)) = AtCheck"
        using free by simp
      moreover have "snd (Err_step n (cs ! i)) = cs ! i"
        using stuck i by blast
      ultimately show ?thesis
        using AtLock by simp
    next
      case (ErrReturned e)
      then show ?thesis
        using ok [OF i] by simp
    qed (use nobody [OF i] in simp_all)
  qed
  then show ?thesis
    by (simp add: list_eq_iff_nth_eq)
qed

lemma Err_completes:
  assumes "Err_inv n0 v rest (n, cs)"
  shows "\<exists>ks. snd (Err_run ks (n, cs)) = replicate (length cs) (ErrReturned v)"
  using assms
proof (induction "sum_list (map remaining cs)" arbitrary: n cs rule: less_induct)
  case less
  show ?case
  proof (cases "\<forall>k<length cs. snd (Err_step n (cs ! k)) = cs ! k")
    case True
    have "cs = replicate (length cs) (ErrReturned v)"
      using less.prems True by (rule Err_quiescent)
    then have "snd (Err_run [] (n, cs)) = replicate (length cs) (ErrReturned v)"
      by simp
    then show ?thesis
      by blast
  next
    case False
    then obtain k where k: "k < length cs" and mv: "snd (Err_step n (cs ! k)) \<noteq> cs ! k"
      by blast
    let ?n' = "fst (Err_step n (cs ! k))" and ?c' = "snd (Err_step n (cs ! k))"
    have "remaining ?c' + 1 \<le> remaining (cs ! k)"
      using remaining_step [of n "cs ! k"] mv by simp
    with k have "sum_list (map remaining (cs[k := ?c'])) + 1 \<le> sum_list (map remaining cs)"
      by (rule sum_remaining_update)
    then have lt: "sum_list (map remaining (cs[k := ?c'])) < sum_list (map remaining cs)"
      by simp
    have inv': "Err_inv n0 v rest (?n', cs[k := ?c'])"
      using less.prems k by (rule Err_inv_step)
    obtain ks where "snd (Err_run ks (?n', cs[k := ?c'])) = replicate (length (cs[k := ?c'])) (ErrReturned v)"
      using less.hyps [OF lt inv'] by blast
    then have "snd (Err_run (k # ks) (n, cs)) = replicate (length cs) (ErrReturned v)"
      using k by simp
    then show ?thesis
      by blast
  qed
qed

lemma Err_returned_set: "e \<in> set (Err_returned cs) \<longleftrightarrow> ErrReturned e \<in> set cs"
  by (induction cs rule: Err_returned.induct) auto

lemma Err_inv_returned:
  assumes inv: "Err_inv n0 v rest (n, cs)" and e: "e \<in> set (Err_returned cs)"
  shows "e = v" and "cached v rest n"
proof -
  from e have "ErrReturned e \<in> set cs"
    by (simp add: Err_returned_set)
  then obtain i where i: "i < length cs" and c: "cs ! i = ErrReturned e"
    by (auto simp: in_set_conv_nth)
  from inv i have "pc_ok n0 v rest n (cs ! i)"
    by (auto simp: Err_inv_def)
  then show "e = v" and "cached v rest n"
    by (simp_all add: c)
qed

lemma Err_inv_channel:
  assumes "Err_inv n0 v rest (n, cs)"
  shows "errCh n = v # rest \<or> errCh n = rest"
proof (cases "\<exists>i<length cs. holds_mutex (cs ! i)")
  case True
  then obtain i where i: "i < length cs" and h: "holds_mutex (cs ! i)"
    by blast
  from assms i have "pc_ok n0 v rest n (cs ! i)"
    by (auto simp: Err_inv_def)
  then show ?thesis
    using h by (cases "cs ! i") (auto simp: fresh_def flagged_def received_def cached_def)
next
  case False
  with assms have "fresh n0 v rest n \<or> cached v rest n"
    by (auto simp: Err_inv_def)
  then show ?thesis
    by (auto simp: fresh_def cached_def)
qed

lemma Err_inv_final:
  assumes inv: "Err_inv n0 v rest (n, replicate N (ErrReturned v))" and N: "0 < N"
    and free: "\<not> finishedMu n0"
  shows "n = n0\<lparr>finished := True, err := v, errCh := rest\<rparr>"
proof -
  from inv N have "pc_ok n0 v rest n (replicate N (ErrReturned v) ! 0)"
    unfolding Err_inv_def by auto
  then have c: "finished n" "err n = v" "errCh n = rest"
    using N by (simp_all add: cached_def)
  from inv have "\<not> finishedMu n"
    by (auto simp: Err_inv_def)
  with free have m: "finishedMu n = finishedMu n0"
    by simp
  from inv have fr: "n\<lparr>finishedMu := finishedMu n0, finished := finished n0, err := err n0, errCh := errCh n0\<rparr> = n0"
    by (auto simp: Err_inv_def Err_frame_def)
  have "n0\<lparr>finished := True, err := v, errCh := rest\<rparr> =
      n\<lparr>finishedMu := finishedMu n0, finished := True, err := v, errCh := rest\<rparr>"
    by (subst fr [symmetric]) simp
  also have "\<dots> = n"
    using c m by simp
  finally show ?thesis
    by simp
qed


lemma Err_schedule_run:
  "snd (Err_schedule ks r N w) = snd (Err_run ks (nodes w r, replicate N AtLock))"
  "nodes (fst (Err_schedule ks r N w)) r = fst (Err_run ks (nodes w r, replicate N AtLock))"
  by (simp_all add: Err_schedule_def update_node_def split: prod.splits)

lemma Err_schedule_world:
  "fst (Err_schedule ks r N w) =
     update_node r (\<lambda>n. fst (Err_run ks (nodes w r, replicate N AtLock))) w"
  by (simp add: Err_schedule_def update_node_def split: prod.splits)

text \<open>
  C3. On a node whose goroutine has sent its value \<open>v\<close> (the channel holds it), whose flag
  is not set and whose mutex is free, any number \<open>N\<close> of callers of \<^verbatim>\<open>Err()\<close> take their
  atomic steps in any order \<open>ks\<close>; callers one after the other are the schedules in which
  each runs to its return before the next starts. At every moment: every call that has
  returned has returned \<open>v\<close>; at most one value has been taken from the channel, and
  exactly one once a call has returned, with \<open>v\<close> cached in \<^verbatim>\<open>n.err\<close> and the flag set;
  nothing but the mutex, the flag, the cached error and the channel of this node has
  changed. No schedule has more than \<open>7 N\<close> steps that are not the waiting of a blocked
  caller or the idling of a returned one; when no caller can take a step, all have
  returned \<open>v\<close>; and every schedule can be continued to one after which all have returned
  \<open>v\<close>. The world is then the one that a single call with the mutex to itself leaves.
\<close>

theorem Err_interleaved_identical:
  assumes "\<not> finishedMu (nodes w r)" and "\<not> finished (nodes w r)" and "errCh (nodes w r) = v # rest"
  shows "length (snd (Err_schedule ks r N w)) = N
     \<and> set (Err_returned (snd (Err_schedule ks r N w))) \<subseteq> {v}
     \<and> (errCh (nodes (fst (Err_schedule ks r N w)) r) = v # rest
          \<or> errCh (nodes (fst (Err_schedule ks r N w)) r) = rest)
     \<and> (Err_returned (snd (Err_schedule ks r N w)) \<noteq> [] \<longrightarrow>
          finished (nodes (fst (Err_schedule ks r N w)) r)
          \<and> err (nodes (fst (Err_schedule ks r N w)) r) = v
          \<and> errCh (nodes (fst (Err_schedule ks r N w)) r) = rest)
     \<and> fst (Err_schedule ks r N w) =
          update_node r
            (\<lambda>n. n\<lparr>finishedMu := finishedMu (nodes (fst (Err_schedule ks r N w)) r),
                    finished := finished (nodes (fst (Err_schedule ks r N w)) r),
                    err := err (nodes (fst (Err_schedule ks r N w)) r),
                    errCh := errCh (nodes (fst (Err_schedule ks r N w)) r)\<rparr>) w
     \<and> Err_work ks (nodes w r, replicate N AtLock) \<le> 7 * N
     \<and> ((\<forall>k<N. snd (Err_step (nodes (fst (Err_schedule ks r N w)) r) (snd (Err_schedule ks r N w) ! k))
                  = snd (Err_schedule ks r N w) ! k) \<longrightarrow>
          snd (Err_schedule ks r N w) = replicate N (ErrReturned v))
     \<and> (\<exists>ks'. snd (Err_schedule (ks @ ks') r N w) = replicate N (ErrReturned v))
     \<and> (snd (Err_schedule ks r N w) = replicate N (ErrReturned v) \<and> 0 < N \<longrightarrow>
          Err r w = Some (v, fst (Err_schedule ks r N w)))"
proof -
  let ?m = "nodes w r"
  let ?s = "Err_run ks (?m, replicate N AtLock)"
  let ?n = "fst ?s" and ?cs = "snd ?s"
  have inv0: "Err_inv ?m v rest (?m, replicate N AtLock)"
    using assms by (rule Err_inv_init)
  have "Err_inv ?m v rest ?s"
    using inv0 by (rule Err_run_inv)
  then have inv: "Err_inv ?m v rest (?n, ?cs)"
    by simp
  have len: "length ?cs = N"
    by (simp add: Err_run_length)
  have a: "length (snd (Err_schedule ks r N w)) = N"
    unfolding Err_schedule_run by (rule len)
  have b: "set (Err_returned (snd (Err_schedule ks r N w))) \<subseteq> {v}"
    unfolding Err_schedule_run using Err_inv_returned(1) [OF inv] by blast
  have c: "errCh (nodes (fst (Err_schedule ks r N w)) r) = v # rest
          \<or> errCh (nodes (fst (Err_schedule ks r N w)) r) = rest"
    unfolding Err_schedule_run using inv by (rule Err_inv_channel)
  have d: "Err_returned (snd (Err_schedule ks r N w)) \<noteq> [] \<longrightarrow>
          finished (nodes (fst (Err_schedule ks r N w)) r)
          \<and> err (nodes (fst (Err_schedule ks r N w)) r) = v
          \<and> errCh (nodes (fst (Err_schedule ks r N w)) r) = rest"
  proof
    assume "Err_returned (snd (Err_schedule ks r N w)) \<noteq> []"
    then obtain e where "e \<in> set (Err_returned ?cs)"
      unfolding Err_schedule_run by (cases "Err_returned ?cs") auto
    then have "cached v rest ?n"
      by (rule Err_inv_returned(2) [OF inv])
    then show "finished (nodes (fst (Err_schedule ks r N w)) r)
          \<and> err (nodes (fst (Err_schedule ks r N w)) r) = v
          \<and> errCh (nodes (fst (Err_schedule ks r N w)) r) = rest"
      unfolding Err_schedule_run by (simp add: cached_def)
  qed
  have fr: "?n\<lparr>finishedMu := finishedMu ?m, finished := finished ?m, err := err ?m, errCh := errCh ?m\<rparr> = ?m"
    using inv by (auto simp: Err_inv_def Err_frame_def)
  have "?m\<lparr>finishedMu := finishedMu ?n, finished := finished ?n, err := err ?n, errCh := errCh ?n\<rparr> = ?n"
    by (subst fr [symmetric]) simp
  then have e: "fst (Err_schedule ks r N w) =
          update_node r
            (\<lambda>n. n\<lparr>finishedMu := finishedMu (nodes (fst (Err_schedule ks r N w)) r),
                    finished := finished (nodes (fst (Err_schedule ks r N w)) r),
                    err := err (nodes (fst (Err_schedule ks r N w)) r),
                    errCh := errCh (nodes (fst (Err_schedule ks r N w)) r)\<rparr>) w"
    unfolding Err_schedule_run unfolding Err_schedule_world by (simp add: update_node_def)
  have f: "Err_work ks (nodes w r, replicate N AtLock) \<le> 7 * N"
    by (rule Err_work_bound)
  have g: "(\<forall>k<N. snd (Err_step (nodes (fst (Err_schedule ks r N w)) r) (snd (Err_schedule ks r N w) ! k))
                  = snd (Err_schedule ks r N w) ! k) \<longrightarrow>
          snd (Err_schedule ks r N w) = replicate N (ErrReturned v)"
    unfolding Err_schedule_run using Err_quiescent [OF inv] len by simp
  have h: "\<exists>ks'. snd (Err_schedule (ks @ ks') r N w) = replicate N (ErrReturned v)"
  proof -
    obtain ks' where "snd (Err_run ks' (?n, ?cs)) = replicate (length ?cs) (ErrReturned v)"
      using Err_completes [OF inv] by blast
    then have "snd (Err_schedule (ks @ ks') r N w) = replicate N (ErrReturned v)"
      unfolding Err_schedule_run by (simp add: Err_run_append len)
    then show ?thesis
      by blast
  qed
  have i: "snd (Err_schedule ks r N w) = replicate N (ErrReturned v) \<and> 0 < N \<longrightarrow>
          Err r w = Some (v, fst (Err_schedule ks r N w))"
  proof
    assume fin: "snd (Err_schedule ks r N w) = replicate N (ErrReturned v) \<and> 0 < N"
    then have N: "0 < N" and cs: "?cs = replicate N (ErrReturned v)"
      unfolding Err_schedule_run by blast+
    have "Err_inv ?m v rest (?n, replicate N (ErrReturned v))"
      using inv unfolding cs .
    then have "?n = ?m\<lparr>finished := True, err := v, errCh := rest\<rparr>"
      using N assms(1) by (rule Err_inv_final)
    then have "fst (Err_schedule ks r N w) =
        update_node r (\<lambda>n. n\<lparr>finished := True, err := v, errCh := rest\<rparr>) w"
      unfolding Err_schedule_world by (simp add: update_node_def)
    then show "Err r w = Some (v, fst (Err_schedule ks r N w))"
      using Err_first [OF assms(2,3)] by simp
  qed
  from a b c d e f g h i show ?thesis
    by blast
qed


lemma terminated_world_node:
  "nodes terminated_world 0 =
     (nodes (run_world (Returns (Some (RunError ''lost input'')))) 0)\<lparr>errCh := [Some (RunError ''lost input'')]\<rparr>"
proof -
  let ?e = "Some (RunError ''lost input'')"
  have ch0: "errCh (nodes (run_world (Returns ?e)) 0) = []"
    by (simp add: run_world_def two_nodes_def new_node_def)
  have rf: "runF (nodes (run_world (Returns ?e)) 0) [] (ext (run_world (Returns ?e))) = (Returns ?e, 1)"
    by (simp add: run_world_def two_nodes_def new_node_def)
  have sg: "start_go [] 0 [] (run_world (Returns ?e)) =
      start_deferred 0 ?e None [] ((run_world (Returns ?e))\<lparr>ext := 1\<rparr>)"
    by (simp add: start_go_def rf)
  have ch1: "errCh (nodes ((run_world (Returns ?e))\<lparr>ext := 1\<rparr>) 0) = []"
    using ch0 by simp
  show ?thesis
    unfolding terminated_world_def sg start_deferred_error [OF ch1] by simp
qed

lemma terminated_world_fields:
  "\<not> finishedMu (nodes terminated_world 0)"
  "\<not> finished (nodes terminated_world 0)"
  "errCh (nodes terminated_world 0) = [Some (RunError ''lost input'')]"
  unfolding terminated_world_node by (simp_all add: run_world_def two_nodes_def new_node_def)

text \<open>
  Two callers on a node whose goroutine has sent one value: caller 1 takes the mutex, caller
  0 waits for it twice, and takes it after caller 1 has returned.
\<close>

lemma Err_run_example:
  assumes "\<not> finishedMu n" and "\<not> finished n" and "errCh n = [e]"
  shows "Err_run [1, 0, 1, 1, 0, 1] (n, [AtLock, AtLock]) =
           (n\<lparr>finishedMu := True, finished := True, errCh := []\<rparr>, [AtLock, AtStore e])"
  using assms by simp

lemma Err_run_example2:
  assumes "\<not> finishedMu n" and "\<not> finished n" and "errCh n = [e]"
  shows "Err_run [1, 0, 1, 1, 0, 1, 1, 1, 1, 0, 0, 0, 0] (n, [AtLock, AtLock]) =
           (n\<lparr>finishedMu := False, finished := True, errCh := [], err := e\<rparr>,
            [ErrReturned e, ErrReturned e])"
  using assms by simp

lemma Err_work_example:
  assumes "\<not> finishedMu n" and "\<not> finished n" and "errCh n = [e]"
  shows "Err_work [1, 0, 1, 1, 0, 1, 1, 1, 1, 0, 0, 0, 0] (n, [AtLock, AtLock]) = 11"
  using assms by simp

theorem Err_interleaved_identical_witness:
  "\<not> finishedMu (nodes terminated_world 0)
   \<and> \<not> finished (nodes terminated_world 0)
   \<and> errCh (nodes terminated_world 0) = [Some (RunError ''lost input'')]
   \<and> Err_schedule [1, 0, 1, 1, 0, 1, 1, 1, 1, 0, 0, 0, 0] 0 2 terminated_world =
       (update_node 0 (\<lambda>n. n\<lparr>finished := True, err := Some (RunError ''lost input''), errCh := []\<rparr>)
          terminated_world,
        [ErrReturned (Some (RunError ''lost input'')), ErrReturned (Some (RunError ''lost input''))])
   \<and> Err 0 terminated_world =
       Some (Some (RunError ''lost input''),
             fst (Err_schedule [1, 0, 1, 1, 0, 1, 1, 1, 1, 0, 0, 0, 0] 0 2 terminated_world))
   \<and> snd (Err_schedule [1, 0, 1, 1, 0, 1] 0 2 terminated_world) = [AtLock, AtStore (Some (RunError ''lost input''))]
   \<and> Err_returned (snd (Err_schedule [1, 0, 1, 1, 0, 1] 0 2 terminated_world)) = []
   \<and> errCh (nodes (fst (Err_schedule [1, 0, 1, 1, 0, 1] 0 2 terminated_world)) 0) = []
   \<and> Err_work [1, 0, 1, 1, 0, 1, 1, 1, 1, 0, 0, 0, 0] (nodes terminated_world 0, replicate 2 AtLock) = 11"
proof -
  let ?e = "Some (RunError ''lost input'')"
  let ?ks = "[1, 0, 1, 1, 0, 1, 1, 1, 1, 0, 0, 0, 0] :: nat list"
  let ?ks1 = "[1, 0, 1, 1, 0, 1] :: nat list"
  note f = terminated_world_fields
  note t = Err_interleaved_identical [OF f, of ?ks 2]
  have two: "replicate 2 AtLock = [AtLock, AtLock]"
    "replicate 2 (ErrReturned ?e) = [ErrReturned ?e, ErrReturned ?e]"
    by (simp_all add: numeral_2_eq_2)
  have cs: "snd (Err_schedule ?ks 0 2 terminated_world) = replicate 2 (ErrReturned ?e)"
    unfolding Err_schedule_run two Err_run_example2 [OF f] by simp
  from t have "snd (Err_schedule ?ks 0 2 terminated_world) = replicate 2 (ErrReturned ?e) \<and> 0 < (2::nat)
      \<longrightarrow> Err 0 terminated_world = Some (?e, fst (Err_schedule ?ks 0 2 terminated_world))"
    by (elim conjE)
  with cs have e: "Err 0 terminated_world = Some (?e, fst (Err_schedule ?ks 0 2 terminated_world))"
    by simp
  have e1: "Err 0 terminated_world =
      Some (?e, update_node 0 (\<lambda>n. n\<lparr>finished := True, err := ?e, errCh := []\<rparr>) terminated_world)"
    using f by (simp add: Err_first)
  have w: "fst (Err_schedule ?ks 0 2 terminated_world) =
      update_node 0 (\<lambda>n. n\<lparr>finished := True, err := ?e, errCh := []\<rparr>) terminated_world"
    using e e1 by simp
  have a: "Err_schedule ?ks 0 2 terminated_world =
       (update_node 0 (\<lambda>n. n\<lparr>finished := True, err := ?e, errCh := []\<rparr>) terminated_world,
        [ErrReturned ?e, ErrReturned ?e])"
    using w cs unfolding two by (simp add: prod_eq_iff)
  have cs1: "snd (Err_schedule ?ks1 0 2 terminated_world) = [AtLock, AtStore ?e]"
    unfolding Err_schedule_run two Err_run_example [OF f] by simp
  have b: "Err_returned (snd (Err_schedule ?ks1 0 2 terminated_world)) = []"
    unfolding cs1 by simp
  have c: "errCh (nodes (fst (Err_schedule ?ks1 0 2 terminated_world)) 0) = []"
    unfolding Err_schedule_run two Err_run_example [OF f] by simp
  have d: "Err_work ?ks (nodes terminated_world 0, replicate 2 AtLock) = 11"
    unfolding two by (rule Err_work_example [OF f])
  from f a e cs1 b c d show ?thesis
    by blast
qed

lemma seven: "replicate 7 (0::nat) = [0, 0, 0, 0, 0, 0, 0]"
  by (simp add: eval_nat_numeral)

lemma one_caller: "replicate 1 AtLock = [AtLock]"
  by simp

text \<open>
  The call as one step, \<open>Err\<close>, is what a caller alone does in its atomic steps: when \<open>Err\<close>
  gives a result, a lone caller has returned it after seven turns and has left the same
  world; when \<open>Err\<close> gives none, the lone caller is at the receive after three steps and
  waits there for ever.
\<close>

lemma Err_alone:
  assumes free: "\<not> finishedMu (nodes w r)" and call: "Err r w = Some (e, w')"
  shows "Err_schedule (replicate 7 0) r 1 w = (w', [ErrReturned e])"
proof (cases "finished (nodes w r)")
  case True
  have "Err r w = Some (err (nodes w r), w)"
    using True by (rule Err_cached)
  with call have e: "e = err (nodes w r)" and w': "w' = w"
    by auto
  have run: "Err_run [0, 0, 0, 0, 0, 0, 0] (nodes w r, [AtLock]) =
      ((nodes w r)\<lparr>finishedMu := False\<rparr>, [ErrReturned (err (nodes w r))])"
    using free True by simp
  have same: "(nodes w r)\<lparr>finishedMu := False\<rparr> = nodes w r"
    using free by simp
  show ?thesis
    unfolding Err_schedule_def seven one_caller run by (simp add: same e w' update_node_def)
next
  case False
  with call obtain rest where ch: "errCh (nodes w r) = e # rest"
    and w': "w' = update_node r (\<lambda>n. n\<lparr>finished := True, err := e, errCh := rest\<rparr>) w"
    by (auto simp: Err_def Let_def split: list.splits)
  have run: "Err_run [0, 0, 0, 0, 0, 0, 0] (nodes w r, [AtLock]) =
      ((nodes w r)\<lparr>finishedMu := False, finished := True, errCh := rest, err := e\<rparr>, [ErrReturned e])"
    using free False ch by simp
  have same: "(nodes w r)\<lparr>finishedMu := False, finished := True, errCh := rest, err := e\<rparr>
      = (nodes w r)\<lparr>finished := True, err := e, errCh := rest\<rparr>"
    using free by simp
  show ?thesis
    unfolding Err_schedule_def seven one_caller run by (simp add: same w' update_node_def)
qed

lemma Err_alone_blocked:
  assumes free: "\<not> finishedMu (nodes w r)" and call: "Err r w = None"
  shows "snd (Err_schedule ([0, 0, 0] @ replicate j 0) r 1 w) = [AtReceive]"
proof -
  from call have nf: "\<not> finished (nodes w r)" and ch: "errCh (nodes w r) = []"
    by (auto simp: Err_def Let_def split: list.splits if_splits)
  have three: "Err_run [0, 0, 0] (nodes w r, [AtLock]) =
      ((nodes w r)\<lparr>finishedMu := True, finished := True\<rparr>, [AtReceive])"
    using free nf by simp
  have wait: "\<And>n. errCh n = [] \<Longrightarrow> Err_run (replicate j 0) (n, [AtReceive]) = (n, [AtReceive])"
    by (induction j) simp_all
  have wait': "Err_run (replicate j 0) ((nodes w r)\<lparr>finishedMu := True, finished := True\<rparr>, [AtReceive])
      = ((nodes w r)\<lparr>finishedMu := True, finished := True\<rparr>, [AtReceive])"
    by (rule wait) (simp add: ch)
  show ?thesis
    unfolding Err_schedule_def one_caller Err_run_append three wait' by simp
qed

lemma Err_step_cached:
  assumes "finished n" and "c \<in> {AtLock, AtCheck, AtReturn, AtUnlock (err n), ErrReturned (err n)}"
  shows "snd (Err_step n c) \<in> {AtLock, AtCheck, AtReturn, AtUnlock (err n), ErrReturned (err n)}"
    and "(fst (Err_step n c))\<lparr>finishedMu := m\<rparr> = n\<lparr>finishedMu := m\<rparr>"
  using assms by (cases c; simp)+

lemma Err_run_cached:
  assumes "finished n0" and "n\<lparr>finishedMu := finishedMu n0\<rparr> = n0"
    and "set cs \<subseteq> {AtLock, AtCheck, AtReturn, AtUnlock (err n0), ErrReturned (err n0)}"
  shows "(fst (Err_run ks (n, cs)))\<lparr>finishedMu := finishedMu n0\<rparr> = n0
     \<and> set (snd (Err_run ks (n, cs))) \<subseteq> {AtLock, AtCheck, AtReturn, AtUnlock (err n0), ErrReturned (err n0)}"
  using assms(2,3)
proof (induction ks arbitrary: n cs)
  case Nil
  then show ?case by simp
next
  case (Cons k ks)
  show ?case
  proof (cases "k < length cs")
    case False
    then show ?thesis
      using Cons by simp
  next
    case True
    let ?n' = "fst (Err_step n (cs ! k))" and ?c' = "snd (Err_step n (cs ! k))"
    have fin: "finished n" and e: "err n = err n0"
      using assms(1) arg_cong [OF Cons.prems(1), of finished] arg_cong [OF Cons.prems(1), of err]
      by simp_all
    have ck: "cs ! k \<in> {AtLock, AtCheck, AtReturn, AtUnlock (err n), ErrReturned (err n)}"
      using Cons.prems(2) True e by (metis nth_mem subsetD)
    have c': "?c' \<in> {AtLock, AtCheck, AtReturn, AtUnlock (err n0), ErrReturned (err n0)}"
      using Err_step_cached(1) [OF fin ck] e by simp
    have n': "?n'\<lparr>finishedMu := finishedMu n0\<rparr> = n0"
      using Err_step_cached(2) [OF fin ck, of "finishedMu n0"] Cons.prems(1) by simp
    have "set (cs[k := ?c']) \<subseteq> insert ?c' (set cs)"
      by (rule set_update_subset_insert)
    then have cs': "set (cs[k := ?c']) \<subseteq> {AtLock, AtCheck, AtReturn, AtUnlock (err n0), ErrReturned (err n0)}"
      using c' Cons.prems(2) by blast
    show ?thesis
      using True Cons.IH [OF n' cs'] by simp
  qed
qed

text \<open>
  Callers that arrive when the flag is already set, whatever the mutex and the channel hold:
  every call that has returned has returned the cached error, and nothing but the mutex of
  the node has changed at any moment, so the channel is not read again.
\<close>

lemma Err_interleaved_cached:
  assumes "finished (nodes w r)"
  shows "set (Err_returned (snd (Err_schedule ks r N w))) \<subseteq> {err (nodes w r)}
     \<and> fst (Err_schedule ks r N w) =
          update_node r (\<lambda>n. n\<lparr>finishedMu := finishedMu (nodes (fst (Err_schedule ks r N w)) r)\<rparr>) w"
proof -
  let ?m = "nodes w r"
  let ?n = "fst (Err_run ks (?m, replicate N AtLock))" and ?cs = "snd (Err_run ks (?m, replicate N AtLock))"
  have "?m\<lparr>finishedMu := finishedMu ?m\<rparr> = ?m"
    by simp
  moreover have "set (replicate N AtLock) \<subseteq> {AtLock, AtCheck, AtReturn, AtUnlock (err ?m), ErrReturned (err ?m)}"
    by auto
  ultimately have r: "?n\<lparr>finishedMu := finishedMu ?m\<rparr> = ?m
     \<and> set ?cs \<subseteq> {AtLock, AtCheck, AtReturn, AtUnlock (err ?m), ErrReturned (err ?m)}"
    using assms by (intro Err_run_cached)
  have a: "set (Err_returned (snd (Err_schedule ks r N w))) \<subseteq> {err ?m}"
    unfolding Err_schedule_run using r by (auto simp: Err_returned_set)
  have "?m\<lparr>finishedMu := finishedMu ?n\<rparr> = ?n"
    by (subst conjunct1 [OF r, symmetric]) simp
  then have b: "fst (Err_schedule ks r N w) =
          update_node r (\<lambda>n. n\<lparr>finishedMu := finishedMu (nodes (fst (Err_schedule ks r N w)) r)\<rparr>) w"
    unfolding Err_schedule_run unfolding Err_schedule_world by (simp add: update_node_def)
  from a b show ?thesis
    by blast
qed

section \<open>Linking\<close>

lemma addChild_mismatch:
  assumes "Provides (nodes w r) \<noteq> Wants (nodes w c)"
  shows "addChild env r c w = (Inl (MismatchedEdges (Provides (nodes w r)) (Wants (nodes w c))), w)"
  using assms by (simp add: addChild_def)

lemma newEdge_args:
  "taskName (nodes (update_node r (\<lambda>n. n\<lparr>children := children n @ [c]\<rparr>) w) r) = taskName (nodes w r)"
  "Name (nodes (update_node r (\<lambda>n. n\<lparr>children := children n @ [c]\<rparr>) w) k) = Name (nodes w k)"
  "Provides (nodes (update_node r (\<lambda>n. n\<lparr>children := children n @ [c]\<rparr>) w) r) = Provides (nodes w r)"
  by (simp_all add: update_node_def)

lemma addChild_unknown:
  assumes "Provides (nodes w r) = Wants (nodes w c)"
    and "newEdge env (taskName (nodes w r)) (Name (nodes w r)) (Name (nodes w c))
           (Provides (nodes w r)) (defaultEdgeBufferSize env) = None"
  shows "addChild env r c w =
     (Inl (UnknownEdgeType (Provides (nodes w r))),
      update_node r (\<lambda>n. n\<lparr>children := children n @ [c]\<rparr>) w)"
proof -
  let ?w1 = "update_node r (\<lambda>n. n\<lparr>children := children n @ [c]\<rparr>) w"
  have ne: "newEdge env (taskName (nodes ?w1 r)) (Name (nodes ?w1 r)) (Name (nodes ?w1 c))
      (Provides (nodes ?w1 r)) (defaultEdgeBufferSize env) = None"
    unfolding newEdge_args by (rule assms(2))
  have "addChild env r c w = (Inl (UnknownEdgeType (Provides (nodes ?w1 r))), ?w1)"
    unfolding addChild_def Let_def ne using assms(1) by simp
  then show ?thesis
    unfolding newEdge_args .
qed

lemma addChild_created:
  assumes "Provides (nodes w r) = Wants (nodes w c)"
    and "newEdge env (taskName (nodes w r)) (Name (nodes w r)) (Name (nodes w c))
           (Provides (nodes w r)) (defaultEdgeBufferSize env) = Some e"
  shows "addChild env r c w =
     (Inr (nextEdge w),
      addParentEdge c (nextEdge w)
        ((update_node r (\<lambda>n. n\<lparr>children := children n @ [c]\<rparr>) w)
           \<lparr>edges := (edges w)(nextEdge w := e), nextEdge := Suc (nextEdge w)\<rparr>))"
proof -
  let ?w1 = "update_node r (\<lambda>n. n\<lparr>children := children n @ [c]\<rparr>) w"
  have ne: "newEdge env (taskName (nodes ?w1 r)) (Name (nodes ?w1 r)) (Name (nodes ?w1 c))
      (Provides (nodes ?w1 r)) (defaultEdgeBufferSize env) = Some e"
    unfolding newEdge_args by (rule assms(2))
  have nx: "nextEdge ?w1 = nextEdge w" and ed: "edges ?w1 = edges w"
    by (simp_all add: update_node_def)
  show ?thesis
    unfolding addChild_def Let_def ne nx ed using assms(1) by simp
qed





lemma linkChild_outs_le_children:
  assumes "length (outs (nodes w k)) \<le> length (children (nodes w k))"
  shows "length (outs (nodes (snd (linkChild env r c w)) k))
           \<le> length (children (nodes (snd (linkChild env r c w)) k))"
  using assms
  by (auto simp: linkChild_def addChild_def Let_def update_node_def addParent_def addParentEdge_def
      split: if_splits option.splits)

text \<open>
  C7. When the declared types agree and \<^verbatim>\<open>newEdge\<close> returns nil, \<^verbatim>\<open>addChild(c)\<close> returns the
  unknown-edge-type error with \<open>c\<close> already appended to \<^verbatim>\<open>n.children\<close>: the world is not the
  one before the call. \<^verbatim>\<open>linkChild\<close> passes the error and that world on. No conduit was
  appended to the inputs of \<open>c\<close> or to the outputs of \<open>n\<close>; for a node that had no more
  outputs than children, which every sequence of links from fresh nodes keeps true, the
  children list is now strictly longer than the output list.
\<close>

theorem addChild_unknown_edge_keeps_child:
  assumes "Provides (nodes w r) = Wants (nodes w c)"
    and "newEdge env (taskName (nodes w r)) (Name (nodes w r)) (Name (nodes w c))
           (Provides (nodes w r)) (defaultEdgeBufferSize env) = None"
    and "length (outs (nodes w r)) \<le> length (children (nodes w r))"
  shows "fst (addChild env r c w) = Inl (UnknownEdgeType (Provides (nodes w r)))
     \<and> children (nodes (snd (addChild env r c w)) r) = children (nodes w r) @ [c]
     \<and> snd (addChild env r c w) \<noteq> w
     \<and> linkChild env r c w = (Some (UnknownEdgeType (Provides (nodes w r))), snd (addChild env r c w))
     \<and> outs (nodes (snd (addChild env r c w)) r) = outs (nodes w r)
     \<and> ins (nodes (snd (addChild env r c w)) c) = ins (nodes w c)
     \<and> length (outs (nodes (snd (addChild env r c w)) r))
         < length (children (nodes (snd (addChild env r c w)) r))"
proof -
  let ?w1 = "update_node r (\<lambda>n. n\<lparr>children := children n @ [c]\<rparr>) w"
  have ac: "addChild env r c w = (Inl (UnknownEdgeType (Provides (nodes w r))), ?w1)"
    using assms(1,2) by (rule addChild_unknown)
  have ch: "children (nodes ?w1 r) = children (nodes w r) @ [c]"
    by (simp add: update_node_def)
  have "children (nodes ?w1 r) \<noteq> children (nodes w r)"
    unfolding ch by simp
  then have ne: "?w1 \<noteq> w"
    by auto
  have lk: "linkChild env r c w = (Some (UnknownEdgeType (Provides (nodes w r))), ?w1)"
    by (simp add: linkChild_def ac)
  have os: "outs (nodes ?w1 r) = outs (nodes w r)" and ns: "ins (nodes ?w1 c) = ins (nodes w c)"
    by (simp_all add: update_node_def)
  have lt: "length (outs (nodes ?w1 r)) < length (children (nodes ?w1 r))"
    unfolding os ch using assms(3) by simp
  show ?thesis
    unfolding ac using ch ne lk os ns lt by simp
qed

theorem addChild_unknown_edge_keeps_child_witness:
  "Provides (nodes no_edge_pair 0) = Wants (nodes no_edge_pair 1)
   \<and> newEdge known_edges_env (taskName (nodes no_edge_pair 0)) (Name (nodes no_edge_pair 0))
        (Name (nodes no_edge_pair 1)) (Provides (nodes no_edge_pair 0))
        (defaultEdgeBufferSize known_edges_env) = None
   \<and> length (outs (nodes no_edge_pair 0)) \<le> length (children (nodes no_edge_pair 0))
   \<and> fst (addChild known_edges_env 0 1 no_edge_pair) = Inl (UnknownEdgeType NoEdge)
   \<and> children (nodes (snd (addChild known_edges_env 0 1 no_edge_pair)) 0) = [1]
   \<and> snd (addChild known_edges_env 0 1 no_edge_pair) \<noteq> no_edge_pair
   \<and> outs (nodes (snd (addChild known_edges_env 0 1 no_edge_pair)) 0) = []
   \<and> ins (nodes (snd (addChild known_edges_env 0 1 no_edge_pair)) 1) = []
   \<and> length (outs (nodes (snd (addChild known_edges_env 0 1 no_edge_pair)) 0))
       < length (children (nodes (snd (addChild known_edges_env 0 1 no_edge_pair)) 0))"
proof -
  have p: "Provides (nodes no_edge_pair 0) = NoEdge" "Wants (nodes no_edge_pair (Suc 0)) = NoEdge"
    "children (nodes no_edge_pair 0) = []" "outs (nodes no_edge_pair 0) = []"
    "ins (nodes no_edge_pair (Suc 0)) = []"
    by (simp_all add: no_edge_pair_def two_nodes_def new_node_def)
  have h1: "Provides (nodes no_edge_pair 0) = Wants (nodes no_edge_pair 1)"
    by (simp add: p)
  have h2: "newEdge known_edges_env (taskName (nodes no_edge_pair 0)) (Name (nodes no_edge_pair 0))
        (Name (nodes no_edge_pair 1)) (Provides (nodes no_edge_pair 0))
        (defaultEdgeBufferSize known_edges_env) = None"
    by (simp add: known_edges_env_def p)
  have h3: "length (outs (nodes no_edge_pair 0)) \<le> length (children (nodes no_edge_pair 0))"
    by (simp add: p)
  from addChild_unknown_edge_keeps_child [OF h1 h2 h3]
  show ?thesis
    using h1 h2 h3 by (simp add: p)
qed

section \<open>Statistics by group\<close>

lemma fold_upd_map_of:
  "fold (\<lambda>(g, s) m. m(g \<mapsto> F s)) xs m0 = m0 ++ map_of (rev (map (\<lambda>(g, s). (g, F s)) xs))"
proof (induction xs arbitrary: m0)
  case Nil
  then show ?case by simp
next
  case (Cons x xs)
  obtain g s where x: "x = (g, s)"
    by (cases x)
  let ?ys = "rev (map (\<lambda>(g, s). (g, F s)) xs)"
  have "fold (\<lambda>(g, s) m. m(g \<mapsto> F s)) (x # xs) m0 = fold (\<lambda>(g, s) m. m(g \<mapsto> F s)) xs (m0(g \<mapsto> F s))"
    unfolding x by simp
  also have "\<dots> = m0(g \<mapsto> F s) ++ map_of ?ys"
    by (rule Cons.IH)
  also have "m0(g \<mapsto> F s) = m0 ++ [g \<mapsto> F s]"
    by simp
  also have "(m0 ++ [g \<mapsto> F s]) ++ map_of ?ys = m0 ++ ([g \<mapsto> F s] ++ map_of ?ys)"
    by simp
  also have "[g \<mapsto> F s] ++ map_of ?ys = map_of (?ys @ [(g, F s)])"
    unfolding map_of_append by simp
  also have "?ys @ [(g, F s)] = rev (map (\<lambda>(g, s). (g, F s)) (x # xs))"
    unfolding x by simp
  finally show ?case .
qed

lemma map_of_rev_distinct:
  assumes "distinct (map fst xs)"
  shows "map_of (rev xs) = map_of xs"
proof -
  have "distinct (map fst (rev xs))"
    unfolding rev_map [symmetric] distinct_rev by (rule assms)
  then show ?thesis
    using assms by (simp add: map_of_inject_set)
qed

lemma map_of_map_value:
  "map_of (map (\<lambda>(g, s). (g, F s)) xs) g = map_option F (map_of xs g)"
  by (induction xs) auto

lemma readGroupStats_table:
  assumes "distinct (map fst (groupStats e))"
  shows "readGroupStats e (\<lambda>group c em tgs dms stats. stats(group \<mapsto> G c em tgs dms)) Map.empty
     = (\<lambda>g. map_option (\<lambda>s. G (collected s) (emitted s) (tags s) (dims s)) (map_of (groupStats e) g))"
proof -
  let ?F = "\<lambda>s. G (collected s) (emitted s) (tags s) (dims s)"
  let ?ys = "map (\<lambda>(g, s). (g, ?F s)) (groupStats e)"
  have dy: "distinct (map fst ?ys)"
    using assms by (simp add: comp_def case_prod_unfold)
  have "readGroupStats e (\<lambda>group c em tgs dms stats. stats(group \<mapsto> G c em tgs dms)) Map.empty
      = map_of (rev ?ys)"
    unfolding readGroupStats_def fold_upd_map_of by simp
  also have "\<dots> = map_of ?ys"
    using dy by (rule map_of_rev_distinct)
  finally show ?thesis
    by (simp add: fun_eq_iff map_of_map_value)
qed


lemma nodeStatsByGroup_Cons:
  assumes "outs (nodes w r) = a # os" and "distinct (map fst (groupStats (edges w a)))"
  shows "nodeStatsByGroup r w =
     Some (\<lambda>g. map_option
                  (\<lambda>s. \<lparr>Fields = [''emitted'' \<mapsto> collected s], Tags = tags s, Dimensions = dims s\<rparr>)
                  (map_of (groupStats (edges w a)) g))"
  using assms(1) readGroupStats_table [OF assms(2),
      of "\<lambda>c em tgs dms. \<lparr>Fields = [''emitted'' \<mapsto> c], Tags = tgs, Dimensions = dms\<rparr>"]
  by (simp add: nodeStatsByGroup_def)

text \<open>
  C6, as the code has it. A node without output conduits gets the nil map. For a node
  with at least one output conduit the result has exactly the groups observed on the first
  output conduit; the entry of a group holds, under the field name \<open>emitted\<close>, the number of
  records of the group that have been written to that conduit (its collected count there,
  not its emitted count), with the group's retained tags and dimension list. The result
  depends on nothing but the per-group table of the first output conduit: other output
  conduits and the children do not enter.
\<close>

theorem nodeStatsByGroup_first_output:
  "(outs (nodes w r) = [] \<longrightarrow> nodeStatsByGroup r w = None)
   \<and> (outs (nodes w r) = a # os \<and> distinct (map fst (groupStats (edges w a))) \<longrightarrow>
        nodeStatsByGroup r w =
          Some (\<lambda>g. map_option
                       (\<lambda>s. \<lparr>Fields = [''emitted'' \<mapsto> collected s], Tags = tags s, Dimensions = dims s\<rparr>)
                       (map_of (groupStats (edges w a)) g))
        \<and> reported_field r w g ''emitted'' = map_option collected (map_of (groupStats (edges w a)) g))
   \<and> (outs (nodes w r) = a # os \<and> outs (nodes w2 r2) = a2 # os2
        \<and> groupStats (edges w a) = groupStats (edges w2 a2) \<longrightarrow>
        nodeStatsByGroup r w = nodeStatsByGroup r2 w2)"
proof (intro conjI impI)
  assume "outs (nodes w r) = []"
  then show "nodeStatsByGroup r w = None"
    by (simp add: nodeStatsByGroup_def)
next
  assume h: "outs (nodes w r) = a # os \<and> distinct (map fst (groupStats (edges w a)))"
  show t: "nodeStatsByGroup r w =
          Some (\<lambda>g. map_option
                       (\<lambda>s. \<lparr>Fields = [''emitted'' \<mapsto> collected s], Tags = tags s, Dimensions = dims s\<rparr>)
                       (map_of (groupStats (edges w a)) g))"
    by (rule nodeStatsByGroup_Cons [OF conjunct1 [OF h] conjunct2 [OF h]])
  show "reported_field r w g ''emitted'' = map_option collected (map_of (groupStats (edges w a)) g)"
    unfolding reported_field_def t by (cases "map_of (groupStats (edges w a)) g") simp_all
next
  assume "outs (nodes w r) = a # os \<and> outs (nodes w2 r2) = a2 # os2
        \<and> groupStats (edges w a) = groupStats (edges w2 a2)"
  then show "nodeStatsByGroup r w = nodeStatsByGroup r2 w2"
    by (simp add: nodeStatsByGroup_def readGroupStats_def)
qed

theorem nodeStatsByGroup_first_output_witness:
  "outs (nodes backlog_world 1) = [] \<and> nodeStatsByGroup 1 backlog_world = None
   \<and> outs (nodes backlog_world 0) = [0, 1]
   \<and> distinct (map fst (groupStats (edges backlog_world 0)))
   \<and> reported_field 0 backlog_world ''G1'' ''emitted'' = Some 3
   \<and> reported_field 0 backlog_world ''G2'' ''emitted'' = Some 2
   \<and> reported_field 0 backlog_world ''G3'' ''emitted'' = None
   \<and> outs (nodes (backlog_world\<lparr>nodes := (nodes backlog_world)
                       (0 := (nodes backlog_world 0)\<lparr>outs := [0], children := [1]\<rparr>)\<rparr>) 0) = [0]
   \<and> nodeStatsByGroup 0 backlog_world =
       nodeStatsByGroup 0 (backlog_world\<lparr>nodes := (nodes backlog_world)
                       (0 := (nodes backlog_world 0)\<lparr>outs := [0], children := [1]\<rparr>)\<rparr>)"
proof -
  let ?w2 = "backlog_world\<lparr>nodes := (nodes backlog_world)
                       (0 := (nodes backlog_world 0)\<lparr>outs := [0], children := [1]\<rparr>)\<rparr>"
  have o1: "outs (nodes backlog_world (Suc 0)) = []"
    by (simp add: backlog_world_def two_nodes_def new_node_def)
  have o0: "outs (nodes backlog_world 0) = [0, Suc 0]"
    by (simp add: backlog_world_def two_nodes_def new_node_def)
  have o2: "outs (nodes ?w2 0) = [0]"
    by simp
  have gs: "groupStats (edges backlog_world 0) =
      [(''G1'', \<lparr>collected = 3, emitted = 1, tags = [''host'' \<mapsto> ''a''], dims = [''host'']\<rparr>),
       (''G2'', \<lparr>collected = 2, emitted = 2, tags = [''host'' \<mapsto> ''b''], dims = [''host'']\<rparr>)]"
    by (simp add: backlog_world_def two_nodes_def)
  have e2: "groupStats (edges backlog_world 0) = groupStats (edges ?w2 0)"
    by simp
  have di: "distinct (map fst (groupStats (edges backlog_world 0)))"
    by (simp add: gs)
  note t = nodeStatsByGroup_first_output [of backlog_world]
  have n1: "nodeStatsByGroup (Suc 0) backlog_world = None"
    using t [of "Suc 0" 0 "[]" undefined undefined undefined undefined undefined] o1 by simp
  have r1: "reported_field 0 backlog_world ''G1'' ''emitted'' = Some 3"
    using t [of 0 0 "[Suc 0]" "''G1''" ?w2 0 0 "[]"] o0 di by (simp add: gs)
  have r2: "reported_field 0 backlog_world ''G2'' ''emitted'' = Some 2"
    using t [of 0 0 "[Suc 0]" "''G2''" ?w2 0 0 "[]"] o0 di by (simp add: gs)
  have r3: "reported_field 0 backlog_world ''G3'' ''emitted'' = None"
    using t [of 0 0 "[Suc 0]" "''G3''" ?w2 0 0 "[]"] o0 di by (simp add: gs)
  have eq: "nodeStatsByGroup 0 backlog_world = nodeStatsByGroup 0 ?w2"
    using t [of 0 0 "[Suc 0]" "''G1''" ?w2 0 0 "[]"] o0 o2 e2 by blast
  from o1 n1 o0 di r1 r2 r3 o2 eq show ?thesis
    by simp
qed

text \<open>
  C6 as stated fails: with a backlog on the first output conduit, the field reported for a
  group is not the group's emitted count on that conduit.
\<close>

theorem nodeStatsByGroup_reports_collected:
  "map_option emitted (map_of (groupStats (edges backlog_world 0)) ''G1'') = Some 1
   \<and> reported_field 0 backlog_world ''G1'' ''emitted'' = Some 3"
  by (simp add: reported_field_def nodeStatsByGroup_def readGroupStats_def backlog_world_def
      two_nodes_def new_node_def)

section \<open>Stopping a node\<close>

lemma start_deferred_registry:
  "start_deferred r e p stack (w\<lparr>registry := R\<rparr>) =
     (fst (start_deferred r e p stack w), (snd (start_deferred r e p stack w))\<lparr>registry := R\<rparr>)"
  by (simp add: start_deferred_def closeChildEdges_events abortParentEdges_events errCh_send_def
      update_node_def emit_def Let_def split: option.splits)

lemma start_go_registry:
  "start_go stack k snapshot (w\<lparr>registry := R\<rparr>) =
     (fst (start_go stack k snapshot w), (snd (start_go stack k snapshot w))\<lparr>registry := R\<rparr>)"
proof -
  have sw: "\<And>x. w\<lparr>registry := R, ext := x\<rparr> = w\<lparr>ext := x, registry := R\<rparr>"
    by simp
  show ?thesis
    by (simp add: start_go_def sw start_deferred_registry split: prod.splits outcome.splits)
qed

lemma start_go_keeps_registry: "registry (snd (start_go stack k snapshot w)) = registry w"
  by (simp add: start_go_def start_deferred_def closeChildEdges_events abortParentEdges_events
      errCh_send_def update_node_def emit_def Let_def split: prod.splits outcome.splits option.splits)

lemma world_eqI:
  fixes w1 w2 :: "'x world"
  assumes "nodes w1 = nodes w2" "edges w1 = edges w2" "nextEdge w1 = nextEdge w2"
    "registry w1 = registry w2" "ext w1 = ext w2" "events w1 = events w2"
  shows "w1 = w2"
  using assms by simp

lemma stop_none:
  assumes "stopF (nodes w r) = None"
  shows "stop call r w = Some (w\<lparr>registry := registry w - {statsKey (nodes w r)}\<rparr>)"
  using assms by (simp add: stop_def DeleteStatistics_def)

lemma stop_some:
  assumes "stopF (nodes w r) = Some f" and "call f w = Some w1"
  shows "stop call r w = Some (w1\<lparr>registry := registry w1 - {statsKey (nodes w1 r)}\<rparr>)"
  using assms by (simp add: stop_def DeleteStatistics_def)

lemma stop_stuck:
  assumes "stopF (nodes w r) = Some f" and "call f w = None"
  shows "stop call r w = None"
  using assms by (simp add: stop_def)

lemma stop_again:
  assumes "registry w' = R - {statsKey (nodes w' r)}"
  shows "stop call r w' = Some w' \<longleftrightarrow>
     (case stopF (nodes w' r) of
        None \<Rightarrow> True
      | Some g \<Rightarrow>
          (case call g w' of
             None \<Rightarrow> False
           | Some w2 \<Rightarrow>
               nodes w2 = nodes w' \<and> edges w2 = edges w' \<and> nextEdge w2 = nextEdge w'
               \<and> ext w2 = ext w' \<and> events w2 = events w'
               \<and> registry w2 - {statsKey (nodes w' r)} = registry w'))"
proof (cases "stopF (nodes w' r)")
  case None
  have "w'\<lparr>registry := registry w' - {statsKey (nodes w' r)}\<rparr> = w'"
    by (rule world_eqI) (auto simp: assms)
  then show ?thesis
    by (simp add: stop_none [OF None] None)
next
  case (Some g)
  show ?thesis
  proof (cases "call g w'")
    case None
    with Some show ?thesis
      by (simp add: stop_def)
  next
    case (Some w2)
    have "w2\<lparr>registry := registry w2 - {statsKey (nodes w2 r)}\<rparr> = w' \<longleftrightarrow>
        nodes w2 = nodes w' \<and> edges w2 = edges w' \<and> nextEdge w2 = nextEdge w'
               \<and> ext w2 = ext w' \<and> events w2 = events w'
               \<and> registry w2 - {statsKey (nodes w' r)} = registry w'"
      (is "?l \<longleftrightarrow> ?r")
    proof
      assume l: ?l
      have n: "nodes w2 = nodes w'" using arg_cong [OF l, of nodes] by simp
      have "edges w2 = edges w'" using arg_cong [OF l, of edges] by simp
      moreover have "nextEdge w2 = nextEdge w'" using arg_cong [OF l, of nextEdge] by simp
      moreover have "ext w2 = ext w'" using arg_cong [OF l, of ext] by simp
      moreover have "events w2 = events w'" using arg_cong [OF l, of events] by simp
      moreover have "registry w2 - {statsKey (nodes w' r)} = registry w'"
        using arg_cong [OF l, of registry] n by simp
      ultimately show ?r using n by simp
    next
      assume ?r
      then show ?l
        by (intro world_eqI) simp_all
    qed
    with Some \<open>stopF (nodes w' r) = Some g\<close> show ?thesis
      by (simp add: stop_def DeleteStatistics_def)
  qed
qed

text \<open>
  C9, as the code has it. \<^verbatim>\<open>stop()\<close> calls the stop routine when one is set and, when that
  has returned, removes the node's statistics key from the registry; when the stop routine
  does not return, \<^verbatim>\<open>stop()\<close> does not either. Apart from what the stop routine does,
  \<^verbatim>\<open>stop()\<close> changes the registry and nothing else: it writes no field of a node, the
  completion channel, the cached error and the flag among them, it acts on no conduit and
  it touches no state of the node kind. So it does not reach a run routine, which works on
  the node kind's state: the goroutine of every node \<open>k\<close> ends after \<^verbatim>\<open>stop()\<close> as it ends in
  the world the stop routine left (for a node without a stop routine: in the world before
  the call), and leaves the same world but for the registry. After \<^verbatim>\<open>stop()\<close> the key is not
  registered. Nothing in \<^verbatim>\<open>stop()\<close> records that it ran: a second call calls the stop
  routine again, on the world the first call left. The second call leaves that world as it
  is exactly when the node has no stop routine, or the second run of the stop routine
  returns and changes at most the presence of the key in the registry.
\<close>

theorem stop_effects:
  "(stopF (nodes w r) = None \<longrightarrow>
      stop call r w = Some (w\<lparr>registry := registry w - {statsKey (nodes w r)}\<rparr>)
      \<and> start_go stack k snapshot (w\<lparr>registry := registry w - {statsKey (nodes w r)}\<rparr>) =
          (fst (start_go stack k snapshot w),
           (snd (start_go stack k snapshot w))\<lparr>registry := registry w - {statsKey (nodes w r)}\<rparr>))
   \<and> (stopF (nodes w r) = Some f \<and> call f w = Some w1 \<longrightarrow>
      stop call r w = Some (w1\<lparr>registry := registry w1 - {statsKey (nodes w1 r)}\<rparr>)
      \<and> start_go stack k snapshot (w1\<lparr>registry := registry w1 - {statsKey (nodes w1 r)}\<rparr>) =
          (fst (start_go stack k snapshot w1),
           (snd (start_go stack k snapshot w1))\<lparr>registry := registry w1 - {statsKey (nodes w1 r)}\<rparr>))
   \<and> (stopF (nodes w r) = Some f \<and> call f w = None \<longrightarrow> stop call r w = None)
   \<and> (stop call r w = Some w' \<longrightarrow>
        statsKey (nodes w' r) \<notin> registry w'
        \<and> (stop call r w' = Some w' \<longleftrightarrow>
             (case stopF (nodes w' r) of
                None \<Rightarrow> True
              | Some g \<Rightarrow>
                  (case call g w' of
                     None \<Rightarrow> False
                   | Some w2 \<Rightarrow>
                       nodes w2 = nodes w' \<and> edges w2 = edges w' \<and> nextEdge w2 = nextEdge w'
                       \<and> ext w2 = ext w' \<and> events w2 = events w'
                       \<and> registry w2 - {statsKey (nodes w' r)} = registry w'))))"
proof (intro conjI impI)
  assume "stopF (nodes w r) = None"
  then show "stop call r w = Some (w\<lparr>registry := registry w - {statsKey (nodes w r)}\<rparr>)"
    by (rule stop_none)
next
  show "start_go stack k snapshot (w\<lparr>registry := registry w - {statsKey (nodes w r)}\<rparr>) =
          (fst (start_go stack k snapshot w),
           (snd (start_go stack k snapshot w))\<lparr>registry := registry w - {statsKey (nodes w r)}\<rparr>)"
    by (rule start_go_registry)
next
  assume "stopF (nodes w r) = Some f \<and> call f w = Some w1"
  then show "stop call r w = Some (w1\<lparr>registry := registry w1 - {statsKey (nodes w1 r)}\<rparr>)"
    by (simp add: stop_def DeleteStatistics_def)
next
  show "start_go stack k snapshot (w1\<lparr>registry := registry w1 - {statsKey (nodes w1 r)}\<rparr>) =
          (fst (start_go stack k snapshot w1),
           (snd (start_go stack k snapshot w1))\<lparr>registry := registry w1 - {statsKey (nodes w1 r)}\<rparr>)"
    by (rule start_go_registry)
next
  assume "stopF (nodes w r) = Some f \<and> call f w = None"
  then show "stop call r w = None"
    by (simp add: stop_def)
next
  assume s: "stop call r w = Some w'"
  then obtain w0 where w': "w' = w0\<lparr>registry := registry w0 - {statsKey (nodes w0 r)}\<rparr>"
    by (auto simp: stop_def DeleteStatistics_def split: option.splits)
  have key: "statsKey (nodes w' r) = statsKey (nodes w0 r)"
    by (simp add: w')
  show "statsKey (nodes w' r) \<notin> registry w'"
    unfolding key by (simp add: w')
  have reg: "registry w' = registry w0 - {statsKey (nodes w' r)}"
    unfolding key by (simp add: w')
  show "stop call r w' = Some w' \<longleftrightarrow>
             (case stopF (nodes w' r) of
                None \<Rightarrow> True
              | Some g \<Rightarrow>
                  (case call g w' of
                     None \<Rightarrow> False
                   | Some w2 \<Rightarrow>
                       nodes w2 = nodes w' \<and> edges w2 = edges w' \<and> nextEdge w2 = nextEdge w'
                       \<and> ext w2 = ext w' \<and> events w2 = events w'
                       \<and> registry w2 - {statsKey (nodes w' r)} = registry w'))"
    by (rule stop_again [OF reg])
qed

lemma counting_stop_world_fields:
  "stopF (nodes counting_stop_world 0) = Some 0"
  "statsKey (nodes counting_stop_world 0) = ''nodes-1''"
  "registry counting_stop_world = {''nodes-1''}"
  "ext counting_stop_world = 0"
  "errCh (nodes counting_stop_world 0) = []"
  "outs (nodes counting_stop_world 0) = []"
  "runF (nodes counting_stop_world 0) = (\<lambda>snapshot x. (if x = 0 then NeverReturns else Returns None, x))"
  "stopF (nodes counting_stop_world (Suc 0)) = None"
  "statsKey (nodes counting_stop_world (Suc 0)) = []"
  by (simp_all add: counting_stop_world_def start_def update_node_def two_nodes_def new_node_def
      known_edges_env_def)

theorem stop_effects_witness:
  "stopF (nodes counting_stop_world 0) = Some 0
   \<and> kind_code 0 counting_stop_world = Some (counting_stop_world\<lparr>ext := Suc 0\<rparr>)
   \<and> stop kind_code 0 counting_stop_world = Some (counting_stop_world\<lparr>ext := Suc 0, registry := {}\<rparr>)
   \<and> start_go [] 0 [] (counting_stop_world\<lparr>ext := Suc 0, registry := {}\<rparr>) =
        (fst (start_go [] 0 [] (counting_stop_world\<lparr>ext := Suc 0\<rparr>)),
         (snd (start_go [] 0 [] (counting_stop_world\<lparr>ext := Suc 0\<rparr>)))\<lparr>registry := {}\<rparr>)
   \<and> statsKey (nodes (counting_stop_world\<lparr>ext := Suc 0, registry := {}\<rparr>) 0)
        \<notin> registry (counting_stop_world\<lparr>ext := Suc 0, registry := {}\<rparr>)
   \<and> stop kind_code 0 (counting_stop_world\<lparr>ext := Suc 0, registry := {}\<rparr>)
        \<noteq> Some (counting_stop_world\<lparr>ext := Suc 0, registry := {}\<rparr>)
   \<and> stopF (nodes counting_stop_world (Suc 0)) = None
   \<and> stop kind_code (Suc 0) counting_stop_world = Some (counting_stop_world\<lparr>registry := {''nodes-1''}\<rparr>)
   \<and> stop kind_code (Suc 0) (counting_stop_world\<lparr>registry := {''nodes-1''}\<rparr>)
        = Some (counting_stop_world\<lparr>registry := {''nodes-1''}\<rparr>)
   \<and> stopF (nodes (update_node 0 (\<lambda>n. n\<lparr>stopF := Some 2\<rparr>) counting_stop_world) 0) = Some 2
   \<and> kind_code 2 (update_node 0 (\<lambda>n. n\<lparr>stopF := Some 2\<rparr>) counting_stop_world) = None
   \<and> stop kind_code 0 (update_node 0 (\<lambda>n. n\<lparr>stopF := Some 2\<rparr>) counting_stop_world) = None"
proof -
  let ?W = "counting_stop_world"
  let ?W1 = "counting_stop_world\<lparr>ext := Suc 0\<rparr>"
  let ?W' = "counting_stop_world\<lparr>ext := Suc 0, registry := {}\<rparr>"
  let ?V' = "counting_stop_world\<lparr>registry := {''nodes-1''}\<rparr>"
  let ?U = "update_node 0 (\<lambda>n. n\<lparr>stopF := Some 2\<rparr>) counting_stop_world"
  note f = counting_stop_world_fields
  have h0: "stopF (nodes ?W 0) = Some 0" and c0: "kind_code 0 ?W = Some ?W1"
    by (simp_all add: f kind_code_def)
  have r1: "?W1\<lparr>registry := registry ?W1 - {statsKey (nodes ?W1 0)}\<rparr> = ?W'"
    by (simp add: f)
  note t0 = stop_effects [where w = ?W and r = 0 and call = kind_code and f = 0 and ?w1.0 = ?W1
      and w' = ?W' and stack = "[]" and k = 0 and snapshot = "[]"]
  have s0: "stop kind_code 0 ?W = Some ?W'"
    using t0 h0 c0 r1 by simp
  have rg: "registry ?W - {statsKey (nodes ?W 0)} = {}"
    by (simp add: f)
  have g0: "start_go [] 0 [] ?W' =
        (fst (start_go [] 0 [] ?W1), (snd (start_go [] 0 [] ?W1))\<lparr>registry := {}\<rparr>)"
    using t0 h0 c0 r1 by (simp add: rg)
  have k0: "statsKey (nodes ?W' 0) \<notin> registry ?W'"
    using conjunct1 [OF mp [OF conjunct2 [OF conjunct2 [OF conjunct2 [OF t0]]] s0]] .
  have c0': "kind_code 0 ?W' = Some (?W'\<lparr>ext := 2\<rparr>)" and h0': "stopF (nodes ?W' 0) = Some 0"
    by (simp_all add: f kind_code_def)
  have n0: "stop kind_code 0 ?W' \<noteq> Some ?W'"
    using conjunct2 [OF mp [OF conjunct2 [OF conjunct2 [OF conjunct2 [OF t0]]] s0]]
    by (simp add: f c0')
  have h1: "stopF (nodes ?W (Suc 0)) = None"
    by (simp add: f)
  have r2: "?W\<lparr>registry := registry ?W - {statsKey (nodes ?W (Suc 0))}\<rparr> = ?V'"
    by (simp add: f)
  note t1 = stop_effects [where w = ?W and r = "Suc 0" and call = kind_code and w' = ?V']
  have s1: "stop kind_code (Suc 0) ?W = Some ?V'"
    using t1 h1 r2 by simp
  have h1': "stopF (nodes ?V' (Suc 0)) = None"
    by (simp add: f)
  have i1: "stop kind_code (Suc 0) ?V' = Some ?V'"
    using conjunct2 [OF mp [OF conjunct2 [OF conjunct2 [OF conjunct2 [OF t1]]] s1]]
    by (simp add: f)
  have h2: "stopF (nodes ?U 0) = Some 2" and c2: "kind_code 2 ?U = None"
    by (simp_all add: update_node_def kind_code_def)
  note t2 = stop_effects [where w = ?U and r = 0 and call = kind_code and f = 2]
  have s2: "stop kind_code 0 ?U = None"
    using t2 h2 c2 by simp
  from h0 c0 s0 g0 k0 n0 h1 s1 i1 h2 c2 s2 show ?thesis
    by blast
qed

text \<open>
  C9 as stated fails, on a node whose stop routine counts its calls and whose run routine
  waits for that counter to leave 0: a second \<^verbatim>\<open>stop()\<close> counts once more, and the
  goroutine, which blocks when \<^verbatim>\<open>stop()\<close> has not been called, exits after \<^verbatim>\<open>stop()\<close>. What a
  stop routine does is the node kind's business, and it can be what makes the run routine
  return.
\<close>

theorem stop_twice_differs:
  "map_option ext (stop kind_code 0 counting_stop_world) = Some 1
   \<and> map_option ext (Option.bind (stop kind_code 0 counting_stop_world) (stop kind_code 0)) = Some 2
   \<and> fst (start_go [] 0 [] counting_stop_world) = Blocked
   \<and> map_option (\<lambda>w. fst (start_go [] 0 [] w)) (stop kind_code 0 counting_stop_world) = Some Exited"
  by (simp add: stop_def DeleteStatistics_def kind_code_def counting_stop_world_fields start_go_def
      start_deferred_def closeChildEdges_def errCh_send_def update_node_def emit_def)

section \<open>Graph export\<close>

lemma fold_append_concat:
  "fold (\<lambda>(k, v) b. b @ g k v) kvs b0 = b0 @ concat (map (\<lambda>(k, v). g k v) kvs)"
  by (induction kvs arbitrary: b0) (auto simp: case_prod_unfold)

lemma edot_children_result:
  assumes "i \<le> length (outs n)"
  shows "edot_children w n line i cs buf =
     ((if i + length cs \<le> length (outs n) then None
       else Some (IndexOutOfRange (length (outs n)) (length (outs n)))),
      buf @ concat (map (\<lambda>(c, a). line (Name n) (Name (nodes w c)) (Edge_collectedCount (edges w a)))
                     (zip cs (drop i (outs n)))))"
  using assms
proof (induction cs arbitrary: i buf)
  case Nil
  then show ?case by simp
next
  case (Cons c cs)
  show ?case
  proof (cases "i < length (outs n)")
    case True
    then have le: "Suc i \<le> length (outs n)"
      by simp
    have dr: "drop i (outs n) = outs n ! i # drop (Suc i) (outs n)"
      using True by (simp add: Cons_nth_drop_Suc)
    show ?thesis
      using True Cons.IH [OF le] by (simp add: dr)
  next
    case False
    with Cons.prems have "i = length (outs n)"
      by simp
    then show ?thesis by simp
  qed
qed

lemma edot_result:
  assumes "statMap (nodes w r) = Some kvs"
  shows "edot env r buf labels w =
     ((if length (children (nodes w r)) \<le> length (outs (nodes w r)) then None
       else Some (IndexOutOfRange (length (outs (nodes w r))) (length (outs (nodes w r))))),
      (if labels then
         buf @ [newline] @ Name (nodes w r) @ '' [label='' @ [dquote] @ Name (nodes w r) @ '' ''
           @ concat (map (\<lambda>(k, v). k @ ''='' @ Value_String env (nodes w r) v @ '' '') kvs)
           @ [dquote] @ ''];'' @ [newline]
           @ concat (map (\<lambda>(c, a). Name (nodes w r) @ '' -> '' @ Name (nodes w c) @ '' [label='' @ [dquote]
                                    @ fmt_d (Edge_collectedCount (edges w a)) @ [dquote] @ ''];'' @ [newline])
                       (zip (children (nodes w r)) (outs (nodes w r))))
       else
         buf @ [newline] @ Name (nodes w r) @ '' [''
           @ concat (map (\<lambda>(k, v). k @ ''='' @ [dquote] @ Value_String env (nodes w r) v @ [dquote] @ '' '') kvs)
           @ ''];'' @ [newline]
           @ concat (map (\<lambda>(c, a). Name (nodes w r) @ '' -> '' @ Name (nodes w c) @ '' [processed='' @ [dquote]
                                    @ fmt_d (Edge_collectedCount (edges w a)) @ [dquote] @ ''];'' @ [newline])
                       (zip (children (nodes w r)) (outs (nodes w r))))))"
proof -
  have z: "(0::nat) \<le> length (outs (nodes w r))"
    by simp
  show ?thesis
    by (simp add: edot_def Let_def assms fold_append_concat edot_children_result [OF z])
qed

lemma well_linked_fresh:
  assumes "children (nodes w r) = []" and "outs (nodes w r) = []"
  shows "well_linked w r"
  using assms by (simp add: well_linked_def)

lemma well_linked_length:
  "well_linked w r \<Longrightarrow> length (outs (nodes w r)) = length (children (nodes w r))"
  by (simp add: well_linked_def list_all2_lengthD)

lemma linkChild_well_linked:
  assumes "\<forall>k. well_linked w k" and "fst (linkChild env r c w) = None"
  shows "well_linked (snd (linkChild env r c w)) k"
proof -
  from assms(2) obtain e where
    ty: "Provides (nodes w r) = Wants (nodes w c)" and
    ne: "newEdge env (taskName (nodes w r)) (Name (nodes w r)) (Name (nodes w c))
           (Provides (nodes w r)) (defaultEdgeBufferSize env) = Some e"
    by (auto simp: linkChild_def addChild_def Let_def update_node_def split: if_splits option.splits)
  let ?w' = "snd (linkChild env r c w)"
  let ?a = "nextEdge w"
  have ac: "addChild env r c w =
     (Inr ?a,
      addParentEdge c ?a
        ((update_node r (\<lambda>n. n\<lparr>children := children n @ [c]\<rparr>) w)
           \<lparr>edges := (edges w)(?a := e), nextEdge := Suc ?a\<rparr>))"
    by (rule addChild_created [OF ty ne])
  have os: "outs (nodes ?w' k) = (if k = r then outs (nodes w k) @ [?a] else outs (nodes w k))"
    by (simp add: linkChild_def ac addParent_def addParentEdge_def update_node_def)
  have cs: "children (nodes ?w' k) = (if k = r then children (nodes w k) @ [c] else children (nodes w k))"
    by (simp add: linkChild_def ac addParent_def addParentEdge_def update_node_def)
  have ns: "\<And>j. ins (nodes ?w' j) = (if j = c then ins (nodes w j) @ [?a] else ins (nodes w j))"
    by (simp add: linkChild_def ac addParent_def addParentEdge_def update_node_def)
  have old: "list_all2 (\<lambda>a c. a \<in> set (ins (nodes w c))) (outs (nodes w k)) (children (nodes w k))"
    using assms(1) by (simp add: well_linked_def)
  have mono: "list_all2 (\<lambda>a c. a \<in> set (ins (nodes ?w' c))) (outs (nodes w k)) (children (nodes w k))"
    by (rule list_all2_mono [OF old]) (auto simp: ns)
  show ?thesis
  proof (cases "k = r")
    case False
    then show ?thesis
      unfolding well_linked_def os cs using mono by simp
  next
    case True
    have "list_all2 (\<lambda>a c. a \<in> set (ins (nodes ?w' c))) (outs (nodes w k) @ [?a]) (children (nodes w k) @ [c])"
      by (rule list_all2_appendI [OF mono]) (simp add: ns)
    then show ?thesis
      unfolding well_linked_def os cs using True by simp
  qed
qed

lemma linkChild_failed_well_linked:
  assumes "well_linked w k" and "fst (linkChild env r c w) \<noteq> None"
  shows "well_linked (snd (linkChild env r c w)) k \<longleftrightarrow>
           k \<noteq> r \<or> Provides (nodes w r) \<noteq> Wants (nodes w c)"
proof (cases "Provides (nodes w r) = Wants (nodes w c)")
  case False
  then show ?thesis
    using assms(1) by (simp add: linkChild_def addChild_mismatch)
next
  case True
  with assms(2) have ne: "newEdge env (taskName (nodes w r)) (Name (nodes w r)) (Name (nodes w c))
           (Provides (nodes w r)) (defaultEdgeBufferSize env) = None"
    by (auto simp: linkChild_def addChild_def Let_def update_node_def split: if_splits option.splits)
  have lk: "snd (linkChild env r c w) = update_node r (\<lambda>n. n\<lparr>children := children n @ [c]\<rparr>) w"
    by (simp add: linkChild_def addChild_unknown [OF True ne])
  have ns: "\<And>j. ins (nodes (snd (linkChild env r c w)) j) = ins (nodes w j)"
    by (simp add: lk update_node_def)
  show ?thesis
  proof (cases "k = r")
    case False
    then have "outs (nodes (snd (linkChild env r c w)) k) = outs (nodes w k)"
      and "children (nodes (snd (linkChild env r c w)) k) = children (nodes w k)"
      by (simp_all add: lk update_node_def)
    then show ?thesis
      using assms(1) False unfolding well_linked_def ns by simp
  next
    case k: True
    have "length (outs (nodes (snd (linkChild env r c w)) r))
        \<noteq> length (children (nodes (snd (linkChild env r c w)) r))"
      using well_linked_length [OF assms(1)] k by (simp add: lk update_node_def)
    then have "\<not> well_linked (snd (linkChild env r c w)) r"
      using well_linked_length by blast
    then show ?thesis
      using k True by simp
  qed
qed

text \<open>
  What \<^verbatim>\<open>edot\<close> writes for a node whose live statistics map is installed and whose output
  conduits are the conduits to its children, in the order of the children: it returns
  without a panic and appends to the buffer one declaration of the node, with every
  key/value pair of the map in the order \<^verbatim>\<open>Do\<close> visits them, and then one edge declaration per
  child, in the order of \<^verbatim>\<open>n.children\<close>, each carrying the collected count of the conduit
  that connects the node to that child. With labels the pairs are \<^verbatim>\<open>key=value\<close> inside one
  quoted \<^verbatim>\<open>label\<close> attribute after the node's name and the count is a quoted \<^verbatim>\<open>label\<close>;
  without labels every pair is an attribute \<^verbatim>\<open>key="value"\<close> and the count is the attribute
  \<^verbatim>\<open>processed\<close>. Fresh nodes are linked that way, and every link that succeeds or fails on
  the type check keeps all nodes so; a link that fails on the unknown edge type does not.
\<close>

lemma edot_render:
  assumes "statMap (nodes w r) = Some kvs" and "well_linked w r"
  shows
    "edot env r buf True w =
       (None,
        buf @ [newline] @ Name (nodes w r) @ '' [label='' @ [dquote] @ Name (nodes w r) @ '' ''
          @ concat (map (\<lambda>(k, v). k @ ''='' @ Value_String env (nodes w r) v @ '' '') kvs)
          @ [dquote] @ ''];'' @ [newline]
          @ concat (map (\<lambda>(c, a). Name (nodes w r) @ '' -> '' @ Name (nodes w c) @ '' [label='' @ [dquote]
                                   @ fmt_d (Edge_collectedCount (edges w a)) @ [dquote] @ ''];'' @ [newline])
                      (zip (children (nodes w r)) (outs (nodes w r)))))
     \<and> edot env r buf False w =
       (None,
        buf @ [newline] @ Name (nodes w r) @ '' [''
          @ concat (map (\<lambda>(k, v). k @ ''='' @ [dquote] @ Value_String env (nodes w r) v @ [dquote] @ '' '') kvs)
          @ ''];'' @ [newline]
          @ concat (map (\<lambda>(c, a). Name (nodes w r) @ '' -> '' @ Name (nodes w c) @ '' [processed='' @ [dquote]
                                   @ fmt_d (Edge_collectedCount (edges w a)) @ [dquote] @ ''];'' @ [newline])
                      (zip (children (nodes w r)) (outs (nodes w r)))))
     \<and> map fst (zip (children (nodes w r)) (outs (nodes w r))) = children (nodes w r)
     \<and> map snd (zip (children (nodes w r)) (outs (nodes w r))) = outs (nodes w r)
     \<and> (\<forall>(c, a) \<in> set (zip (children (nodes w r)) (outs (nodes w r))). a \<in> set (ins (nodes w c)))"
proof -
  have len: "length (outs (nodes w r)) = length (children (nodes w r))"
    using assms(2) by (rule well_linked_length)
  have a: "edot env r buf True w = (None,
        buf @ [newline] @ Name (nodes w r) @ '' [label='' @ [dquote] @ Name (nodes w r) @ '' ''
          @ concat (map (\<lambda>(k, v). k @ ''='' @ Value_String env (nodes w r) v @ '' '') kvs)
          @ [dquote] @ ''];'' @ [newline]
          @ concat (map (\<lambda>(c, a). Name (nodes w r) @ '' -> '' @ Name (nodes w c) @ '' [label='' @ [dquote]
                                   @ fmt_d (Edge_collectedCount (edges w a)) @ [dquote] @ ''];'' @ [newline])
                      (zip (children (nodes w r)) (outs (nodes w r)))))"
    unfolding edot_result [OF assms(1)] using len by simp
  have b: "edot env r buf False w = (None,
        buf @ [newline] @ Name (nodes w r) @ '' [''
          @ concat (map (\<lambda>(k, v). k @ ''='' @ [dquote] @ Value_String env (nodes w r) v @ [dquote] @ '' '') kvs)
          @ ''];'' @ [newline]
          @ concat (map (\<lambda>(c, a). Name (nodes w r) @ '' -> '' @ Name (nodes w c) @ '' [processed='' @ [dquote]
                                   @ fmt_d (Edge_collectedCount (edges w a)) @ [dquote] @ ''];'' @ [newline])
                      (zip (children (nodes w r)) (outs (nodes w r)))))"
    unfolding edot_result [OF assms(1)] using len by simp
  have c: "map fst (zip (children (nodes w r)) (outs (nodes w r))) = children (nodes w r)"
    and d: "map snd (zip (children (nodes w r)) (outs (nodes w r))) = outs (nodes w r)"
    using len by simp_all
  have "list_all2 (\<lambda>a c. a \<in> set (ins (nodes w c))) (outs (nodes w r)) (children (nodes w r))"
    using assms(2) by (simp add: well_linked_def)
  then have e: "\<forall>(c, a) \<in> set (zip (children (nodes w r)) (outs (nodes w r))). a \<in> set (ins (nodes w c))"
    by (auto simp: list_all2_conv_all_nth in_set_zip)
  from a b c d e show ?thesis by blast
qed

lemma linked_world_node:
  "statMap (nodes linked_world 0) = Some [(''avg_exec_time'', AvgExecVar)]"
  "children (nodes linked_world 0) = [Suc 0]"
  "outs (nodes linked_world 0) = [0]"
  "ins (nodes linked_world (Suc 0)) = [0]"
  "Name (nodes linked_world 0) = ''A''"
  "Name (nodes linked_world (Suc 0)) = ''B''"
  "avgExecVar (nodes linked_world 0) = MaxDuration_zero"
  "Edge_collectedCount (edges linked_world 0) = 12"
  by (simp_all add: linked_world_def Let_def linkChild_def addChild_def addParent_def
      addParentEdge_def update_node_def start_def statAverageExecTime_def two_nodes_def
      new_node_def new_edge_def known_edges_env_def Edge_collectedCount_def)

lemma fmt_d_examples: "fmt_d 0 = ''0''" "fmt_d 12 = ''12''"
  by (simp_all add: fmt_d_def digits10.simps)

text \<open>
  Node \<open>A\<close>, linked to \<open>B\<close> over a conduit that has collected 12 records, in both modes.
\<close>

lemma edot_render_example:
  "well_linked linked_world 0
   \<and> edot known_edges_env 0 ''digraph t {'' True linked_world =
       (None, ''digraph t {'' @ [newline] @ ''A [label='' @ [dquote] @ ''A avg_exec_time=0s '' @ [dquote]
                @ ''];'' @ [newline]
                @ ''A -> B [label='' @ [dquote] @ ''12'' @ [dquote] @ ''];'' @ [newline])
   \<and> edot known_edges_env 0 ''digraph t {'' False linked_world =
       (None, ''digraph t {'' @ [newline] @ ''A [avg_exec_time='' @ [dquote] @ ''0s'' @ [dquote] @ '' ];''
                @ [newline]
                @ ''A -> B [processed='' @ [dquote] @ ''12'' @ [dquote] @ ''];'' @ [newline])"
proof -
  have sm: "statMap (nodes linked_world 0) = Some [(''avg_exec_time'', AvgExecVar)]"
    by (rule linked_world_node)
  have wl: "well_linked linked_world 0"
    by (simp add: well_linked_def linked_world_node)
  have ds: "Duration_String known_edges_env 0 = ''0s''"
    by (simp add: known_edges_env_def)
  have vs: "Value_String known_edges_env (nodes linked_world 0) AvgExecVar = ''0s''"
    by (simp add: Value_String_def MaxDuration_String_def MaxDuration_Int_def MaxDuration_zero_def
        linked_world_node ds)
  from edot_render [OF sm wl, of known_edges_env "''digraph t {''"]
  show ?thesis
    using wl by (simp add: linked_world_node vs fmt_d_examples)
qed







end
